theory Spec2Isabelle
  imports Main
begin

section \<open>Timestamp compression: a shallow embedding of the JavaScript encoders\<close>

text \<open>
  The encoders of \<^verbatim>\<open>time_converter.js\<close> and \<^verbatim>\<open>enhanced_compression.js\<close> work on
  JavaScript numbers: binary64 floating-point values, here holding integer millisecond
  counts. A number is modelled by the integer it holds, and the operators of the source
  are written out on integers. The remainder \<^verbatim>\<open>%\<close>, \<^verbatim>\<open>Math.abs\<close> and the comparisons are
  exact in binary64. Subtraction and division round their exact result to the nearest
  binary64 value, ties to even; \<open>js_sub\<close> and \<open>Math_floor_div\<close> write that rounding out.
  On the integers of magnitude below 2^53 both are exact. Every valid \<^verbatim>\<open>Date\<close> value
  (magnitude at most 8.64e15) is below 2^53; the difference of two of them need not be.
\<close>

subsection \<open>JavaScript operators\<close>

text \<open>
  \<^verbatim>\<open>a % b\<close>: the remainder takes the sign of the dividend (HOL's \<open>mod\<close> takes the
  sign of the divisor). Only used with a positive divisor.
\<close>

definition js_rem :: "int \<Rightarrow> int \<Rightarrow> int" where
  "js_rem a b = (if a < 0 then - ((- a) mod \<bar>b\<bar>) else a mod \<bar>b\<bar>)"

text \<open>
  \<^verbatim>\<open>chars[i] + result\<close>: indexing a string outside its range yields \<^verbatim>\<open>undefined\<close>,
  which string concatenation renders as the text \<^verbatim>\<open>undefined\<close>. \<open>index_str\<close> is the
  string that the concatenation prepends.
\<close>

definition index_str :: "string \<Rightarrow> int \<Rightarrow> string" where
  "index_str chars i =
     (if 0 \<le> i \<and> i < int (length chars) then [chars ! nat i] else ''undefined'')"

subsection \<open>Binary64 rounding of quotients and differences\<close>

text \<open>
  \<open>rne p q\<close> is the integer nearest to \<open>p / q\<close> for \<open>q > 0\<close>, the even one of two
  equally near.
\<close>

definition rne :: "int \<Rightarrow> int \<Rightarrow> int" where
  "rne p q =
     (let k = (2 * p + q) div (2 * q)
      in if (2 * p + q) mod (2 * q) = 0 \<and> odd k then k - 1 else k)"

text \<open>
  A positive binary64 value is \<open>m * 2^e\<close> with a 53-bit mantissa, \<open>2^52 \<le> m < 2^53\<close>.
  For \<open>0 < p / q < 2^53\<close>, \<open>scale_up p q 0\<close> is the \<open>k\<close> with
  \<open>2^52 \<le> (p / q) * 2^k < 2^53\<close>; for \<open>2^53 \<le> p / q\<close>, \<open>scale_down p q 0\<close> is the
  \<open>e\<close> with \<open>2^52 \<le> (p / q) / 2^e < 2^53\<close>. Exponent overflow and subnormal values do
  not arise: the numbers are finite and no quotient by an alphabet length or by 86400000
  is below the normal range.
\<close>

function scale_up :: "int \<Rightarrow> int \<Rightarrow> nat \<Rightarrow> nat" where
  "scale_up p q k = (if 0 < p \<and> p * 2 ^ k < 2 ^ 52 * q then scale_up p q (Suc k) else k)"
  by pat_completeness auto
termination
  by (relation "measure (\<lambda>(p, q, k). nat (2 ^ 52 * q - p * 2 ^ k))") auto

function scale_down :: "int \<Rightarrow> int \<Rightarrow> nat \<Rightarrow> nat" where
  "scale_down p q e = (if 0 < q \<and> 2 ^ 53 * q * 2 ^ e \<le> p then scale_down p q (Suc e) else e)"
  by pat_completeness auto
termination
  by (relation "measure (\<lambda>(p, q, e). nat (p + 1 - 2 ^ 53 * q * 2 ^ e))") auto

declare scale_up.simps [simp del] scale_down.simps [simp del]

text \<open>
  For \<open>p, q > 0\<close>: the floor and the ceiling of the binary64 value nearest to \<open>p / q\<close>.
  At or above 2^52 that value is an integer.
\<close>

definition floor_round64 :: "int \<Rightarrow> int \<Rightarrow> int" where
  "floor_round64 p q =
     (if p < 2 ^ 53 * q
      then (let k = scale_up p q 0 in rne (p * 2 ^ k) q div 2 ^ k)
      else (let e = scale_down p q 0 in rne p (q * 2 ^ e) * 2 ^ e))"

definition ceil_round64 :: "int \<Rightarrow> int \<Rightarrow> int" where
  "ceil_round64 p q =
     (if p < 2 ^ 53 * q
      then (let k = scale_up p q 0 in - ((- rne (p * 2 ^ k) q) div 2 ^ k))
      else (let e = scale_down p q 0 in rne p (q * 2 ^ e) * 2 ^ e))"

text \<open>
  \<^verbatim>\<open>Math.floor(n / b)\<close> for a positive divisor: the quotient is rounded to binary64, then
  floored. Rounding is symmetric about zero, so the floor of a negative quotient is minus
  the ceiling of its magnitude.
\<close>

definition Math_floor_div :: "int \<Rightarrow> int \<Rightarrow> int" where
  "Math_floor_div n b =
     (if n = 0 then 0
      else if 0 < n then floor_round64 n b
      else - ceil_round64 (- n) b)"

text \<open>\<^verbatim>\<open>a - b\<close> on numbers: the exact difference, rounded to binary64.\<close>

definition js_sub :: "int \<Rightarrow> int \<Rightarrow> int" where
  "js_sub a b =
     (let d = a - b
      in if d = 0 then 0
         else if 0 < d then floor_round64 d 1
         else - floor_round64 (- d) 1)"

text \<open>
  The facts about the rounding that the digit loops need to terminate, and its exactness
  below 2^53.
\<close>

lemma rne_upper: "0 < q \<Longrightarrow> 2 * (q * rne p q) \<le> 2 * p + q"
proof -
  assume q: "0 < q"
  define k where "k = (2 * p + q) div (2 * q)"
  have "2 * p + q = 2 * q * k + (2 * p + q) mod (2 * q)" by (simp add: k_def)
  moreover have "0 \<le> (2 * p + q) mod (2 * q)" using q by simp
  ultimately have k: "2 * q * k \<le> 2 * p + q" by linarith
  have "rne p q \<le> k" by (simp add: rne_def k_def Let_def)
  then have "q * rne p q \<le> q * k" using q by (simp add: mult_left_mono)
  with k show ?thesis by (simp add: algebra_simps)
qed

lemma rne_lower: "0 < q \<Longrightarrow> 2 * p - q \<le> 2 * (q * rne p q)"
proof -
  assume q: "0 < q"
  define k where "k = (2 * p + q) div (2 * q)"
  define r where "r = (2 * p + q) mod (2 * q)"
  have e: "2 * p + q = 2 * q * k + r" by (simp add: k_def r_def)
  have r: "0 \<le> r" "r < 2 * q" using q by (simp_all add: r_def)
  show ?thesis
  proof (cases "r = 0 \<and> odd k")
    case True
    then have "rne p q = k - 1" by (simp add: rne_def k_def r_def Let_def)
    then have "2 * (q * rne p q) = 2 * (q * (k - 1))" by simp
    also have "\<dots> = 2 * q * k - 2 * q" by (simp add: algebra_simps)
    finally show ?thesis using e True by simp
  next
    case False
    then have "rne p q = k" by (auto simp: rne_def k_def r_def Let_def)
    then have "2 * (q * rne p q) = 2 * q * k" by simp
    with e r show ?thesis by linarith
  qed
qed

lemma scale_up_spec:
  "0 < p \<Longrightarrow> p * 2 ^ k < 2 ^ 53 * q \<Longrightarrow>
   2 ^ 52 * q \<le> p * 2 ^ scale_up p q k \<and> p * 2 ^ scale_up p q k < 2 ^ 53 * q"
proof (induction p q k rule: scale_up.induct)
  case (1 p q k)
  show ?case
  proof (cases "p * 2 ^ k < 2 ^ 52 * q")
    case True
    then have "p * 2 ^ Suc k < 2 ^ 53 * q" by simp
    with "1.IH" "1.prems"(1) True show ?thesis by (subst (1 2) scale_up.simps) simp
  next
    case False
    with "1.prems" show ?thesis by (subst (1 2) scale_up.simps) simp
  qed
qed

lemma scale_down_spec:
  "0 < q \<Longrightarrow> 2 ^ 52 * q * 2 ^ e \<le> p \<Longrightarrow>
   2 ^ 52 * q * 2 ^ scale_down p q e \<le> p \<and> p < 2 ^ 53 * q * 2 ^ scale_down p q e"
proof (induction p q e rule: scale_down.induct)
  case (1 p q e)
  show ?case
  proof (cases "2 ^ 53 * q * 2 ^ e \<le> p")
    case True
    then have "2 ^ 52 * q * 2 ^ Suc e \<le> p" by simp
    with "1.IH" "1.prems"(1) True show ?thesis by (subst (1 2) scale_down.simps) simp
  next
    case False
    with "1.prems" show ?thesis by (subst (1 2) scale_down.simps) simp
  qed
qed

text \<open>The rounded mantissa lies between the integer parts that enclose the quotient.\<close>

lemma rne_scaled_bounds:
  fixes n b A :: int
  assumes b: "0 < b" and A: "0 < A" and bA: "b < 2 * A" and n: "0 \<le> n"
  shows "(n div b) * A \<le> rne (n * A) b" and "rne (n * A) b < (n div b + 1) * A"
proof -
  define q where "q = n div b"
  define r where "r = n mod b"
  define m where "m = rne (n * A) b"
  have n_eq: "n = q * b + r" by (simp add: q_def r_def)
  have r: "0 \<le> r" "r \<le> b - 1" using b by (simp_all add: r_def)
  have P: "n * A = b * (q * A) + r * A" by (simp add: n_eq algebra_simps)
  have up: "2 * (b * m) \<le> 2 * (n * A) + b" unfolding m_def using b by (rule rne_upper)
  have lo: "2 * (n * A) - b \<le> 2 * (b * m)" unfolding m_def using b by (rule rne_lower)
  have rA0: "0 \<le> r * A" using r A by simp
  have rA: "r * A \<le> (b - 1) * A" using r A by (simp add: mult_right_mono)
  show "q * A \<le> m"
  proof (rule ccontr)
    assume "\<not> q * A \<le> m"
    then have "m \<le> q * A - 1" by simp
    then have "b * m \<le> b * (q * A - 1)" using b by (simp add: mult_left_mono)
    then have "b * m \<le> b * (q * A) - b" by (simp add: algebra_simps)
    with lo P rA0 b show False by linarith
  qed
  show "m < (q + 1) * A"
  proof (rule ccontr)
    assume "\<not> m < (q + 1) * A"
    then have "(q + 1) * A \<le> m" by simp
    then have "b * ((q + 1) * A) \<le> b * m" using b by (simp add: mult_left_mono)
    then have "b * (q * A) + b * A \<le> b * m" by (simp add: algebra_simps)
    moreover have "(b - 1) * A = b * A - A" by (simp add: algebra_simps)
    ultimately show False using up P rA bA by linarith
  qed
qed

lemma floor_round64_safe:
  assumes n: "0 < n" "n < 2 ^ 53" and b: "0 < b"
  shows "floor_round64 n b = n div b"
proof -
  define k where "k = scale_up n b 0"
  define A :: int where "A = 2 ^ k"
  have "(1::int) \<le> b" using b by simp
  then have "(2::int) ^ 53 * 1 \<le> 2 ^ 53 * b" by (intro mult_left_mono) simp_all
  with n have lt: "n < 2 ^ 53 * b" by simp
  then have "n * 2 ^ 0 < 2 ^ 53 * b" by simp
  from scale_up_spec [OF n(1) this]
  have s: "2 ^ 52 * b \<le> n * A" by (simp add: A_def k_def)
  have A: "0 < A" by (simp add: A_def)
  have "n * A < 2 ^ 53 * A" using n A by simp
  with s have "2 ^ 52 * b < 2 ^ 53 * A" by linarith
  then have bA: "b < 2 * A" by simp
  have 1: "(n div b) * A \<le> rne (n * A) b" and 2: "rne (n * A) b < (n div b + 1) * A"
    using rne_scaled_bounds [OF b A bA] n by simp_all
  have "rne (n * A) b div A = n div b"
  proof (rule int_div_pos_eq [where r = "rne (n * A) b - (n div b) * A"])
    show "rne (n * A) b = A * (n div b) + (rne (n * A) b - n div b * A)" by simp
    show "0 \<le> rne (n * A) b - n div b * A" using 1 by simp
    show "rne (n * A) b - n div b * A < A" using 2 by (simp add: algebra_simps)
  qed
  with lt show ?thesis by (simp add: floor_round64_def Let_def k_def A_def)
qed


lemma rne_exact: "0 < q \<Longrightarrow> rne (q * x) q = x"
proof -
  assume q: "0 < q"
  have "2 * (q * x) + q = 2 * q * x + q" by simp
  moreover have "q < 2 * q" using q by simp
  ultimately have d: "(2 * (q * x) + q) div (2 * q) = x" and m: "(2 * (q * x) + q) mod (2 * q) = q"
    using q int_div_pos_eq [of "2 * (q * x) + q" "2 * q" x q]
      int_mod_pos_eq [of "2 * (q * x) + q" "2 * q" x q] by simp_all
  show ?thesis using q by (simp add: rne_def Let_def d m)
qed

lemma rne_pos:
  assumes q: "0 < q" and p: "q \<le> p"
  shows "0 < rne p q"
proof (rule ccontr)
  assume "\<not> 0 < rne p q"
  then have "rne p q \<le> 0" by simp
  then have "q * rne p q \<le> q * 0" using q by (intro mult_left_mono) simp_all
  with rne_lower [OF q, of p] p q show False by simp
qed

lemma ceil_round64_safe:
  assumes n: "0 < n" "n < 2 ^ 53" and b: "0 < b"
  shows "ceil_round64 n b = - ((- n) div b)"
proof -
  define k where "k = scale_up n b 0"
  define A :: int where "A = 2 ^ k"
  define q where "q = n div b"
  define r where "r = n mod b"
  define m where "m = rne (n * A) b"
  have "(1::int) \<le> b" using b by simp
  then have "(2::int) ^ 53 * 1 \<le> 2 ^ 53 * b" by (intro mult_left_mono) simp_all
  with n have lt: "n < 2 ^ 53 * b" by simp
  then have "n * 2 ^ 0 < 2 ^ 53 * b" by simp
  from scale_up_spec [OF n(1) this]
  have s: "2 ^ 52 * b \<le> n * A" by (simp add: A_def k_def)
  have A: "0 < A" by (simp add: A_def)
  have "n * A < 2 ^ 53 * A" using n A by simp
  with s have "2 ^ 52 * b < 2 ^ 53 * A" by linarith
  then have bA: "b < 2 * A" by simp
  have 1: "q * A \<le> m" and 2: "m < (q + 1) * A"
    using rne_scaled_bounds [OF b A bA, of n] n by (simp_all add: q_def m_def)
  have n_eq: "n = b * q + r" by (simp add: q_def r_def)
  have r: "0 \<le> r" "r < b" using b by (simp_all add: r_def)
  have c: "ceil_round64 n b = - ((- m) div A)"
    using lt by (simp add: ceil_round64_def Let_def k_def A_def m_def)
  show ?thesis
  proof (cases "r = 0")
    case True
    then have nA: "n * A = b * (q * A)" by (simp add: n_eq algebra_simps)
    have "m = q * A" unfolding m_def nA using b by (rule rne_exact)
    then have "(- m) div A = - q"
      using A by (intro int_div_pos_eq [where r = 0]) simp_all
    moreover have "(- n) div b = - q"
      using True b by (intro int_div_pos_eq [where r = 0]) (simp_all add: n_eq)
    ultimately show ?thesis using c by simp
  next
    case False
    with r have rpos: "1 \<le> r" by simp
    have lo: "2 * (n * A) - b \<le> 2 * (b * m)" unfolding m_def using b by (rule rne_lower)
    have "1 * A \<le> r * A" using rpos A by (intro mult_right_mono) simp_all
    then have rA: "A \<le> r * A" by simp
    have P: "n * A = b * (q * A) + r * A" by (simp add: n_eq algebra_simps)
    have "q * A < m"
    proof (rule ccontr)
      assume "\<not> q * A < m"
      then have "m \<le> q * A" by simp
      then have "b * m \<le> b * (q * A)" using b by (intro mult_left_mono) simp_all
      with lo P rA bA show False by linarith
    qed
    then have "(- m) div A = - (q + 1)"
      using 2 A by (intro int_div_pos_eq [where r = "(q + 1) * A - m"]) (simp_all add: algebra_simps)
    moreover have "(- n) div b = - (q + 1)"
      using r rpos by (intro int_div_pos_eq [where r = "b - r"]) (simp_all add: n_eq algebra_simps)
    ultimately show ?thesis using c by simp
  qed
qed

lemma Math_floor_div_safe:
  assumes "- (2 ^ 53) < n" "n < 2 ^ 53" "0 < b"
  shows "Math_floor_div n b = n div b"
proof -
  consider "n = 0" | "0 < n" | "n < 0" by linarith
  then show ?thesis
  proof cases
    case 1
    then show ?thesis by (simp add: Math_floor_div_def)
  next
    case 2
    with assms show ?thesis by (simp add: Math_floor_div_def floor_round64_safe)
  next
    case 3
    with assms have "ceil_round64 (- n) b = - (n div b)"
      using ceil_round64_safe [of "- n" b] by simp
    with 3 show ?thesis by (simp add: Math_floor_div_def)
  qed
qed

lemma js_sub_safe:
  assumes "- (2 ^ 53) < a - b" "a - b < 2 ^ 53"
  shows "js_sub a b = a - b"
proof -
  consider "a - b = 0" | "0 < a - b" | "a - b < 0" by linarith
  then show ?thesis
  proof cases
    case 1
    then show ?thesis by (simp add: js_sub_def)
  next
    case 2
    with assms show ?thesis by (simp add: js_sub_def Let_def floor_round64_safe)
  next
    case 3
    with assms have "floor_round64 (- (a - b)) 1 = - (a - b)"
      using floor_round64_safe [of "- (a - b)" 1] by simp
    with 3 show ?thesis by (simp add: js_sub_def Let_def)
  qed
qed


lemma ceil_round64_nonneg:
  assumes p: "0 < p" and q: "0 < q"
  shows "0 \<le> ceil_round64 p q"
proof (cases "p < 2 ^ 53 * q")
  case True
  define A :: int where "A = 2 ^ scale_up p q 0"
  have A: "0 < A" by (simp add: A_def)
  from True have "p * 2 ^ 0 < 2 ^ 53 * q" by simp
  from scale_up_spec [OF p this] have s: "2 ^ 52 * q \<le> p * A" by (simp add: A_def)
  have "1 * q \<le> 2 ^ 52 * q" using q by (intro mult_right_mono) simp_all
  with s have "q \<le> p * A" by simp
  then have "0 < rne (p * A) q" using q by (intro rne_pos)
  then have "(- rne (p * A) q) div A < 0" using A by (intro div_neg_pos_less0) simp_all
  with True show ?thesis by (simp add: ceil_round64_def Let_def A_def)
next
  case False
  define E :: int where "E = 2 ^ scale_down p q 0"
  have E: "0 < E" by (simp add: E_def)
  have "1 * q \<le> 2 ^ 53 * q" using q by (intro mult_right_mono) simp_all
  with False have "2 ^ 52 * q * 2 ^ 0 \<le> p" by simp
  from scale_down_spec [OF q this] have s: "2 ^ 52 * q * E \<le> p" by (simp add: E_def)
  have qE: "0 < q * E" using q E by simp
  then have "1 * (q * E) \<le> 2 ^ 52 * (q * E)" by (intro mult_right_mono) simp_all
  with s have "q * E \<le> p" by (simp add: algebra_simps)
  then have "0 < rne p (q * E)" using qE by (intro rne_pos)
  then have "0 \<le> rne p (q * E) * E" using E by simp
  with False show ?thesis by (simp add: ceil_round64_def Let_def E_def)
qed

lemma Math_floor_div_nonpos: "n \<le> 0 \<Longrightarrow> 0 < b \<Longrightarrow> Math_floor_div n b \<le> 0"
  using ceil_round64_nonneg [of "- n" b] by (simp add: Math_floor_div_def)

lemma floor_round64_less:
  assumes n: "2 ^ 53 \<le> n" and b: "2 \<le> b"
  shows "floor_round64 n b < n"
proof (cases "n < 2 ^ 53 * b")
  case True
  define A :: int where "A = 2 ^ scale_up n b 0"
  define m where "m = rne (n * A) b"
  have A: "1 \<le> A" by (simp add: A_def)
  have n0: "0 < n" using n by simp
  have up: "2 * (b * m) \<le> 2 * (n * A) + b" unfolding m_def using b by (intro rne_upper) simp
  have "m div A < n"
  proof (rule ccontr)
    assume "\<not> m div A < n"
    then have "n \<le> m div A" by simp
    then have "n * A \<le> (m div A) * A" using A by (intro mult_right_mono) simp_all
    moreover have "m = (m div A) * A + m mod A" by simp
    moreover have "0 \<le> m mod A" using A by simp
    ultimately have "n * A \<le> m" by linarith
    then have 1: "b * (n * A) \<le> b * m" using b by (intro mult_left_mono) simp_all
    have "n * 1 \<le> n * A" using A n0 by (intro mult_left_mono) simp_all
    then have "n \<le> n * A" by simp
    moreover have "(2::int) \<le> 2 ^ 53" by simp
    ultimately have X: "2 \<le> n * A" using n by linarith
    have 2: "2 * (n * A) \<le> b * (n * A)" using b X by (intro mult_right_mono) simp_all
    have 3: "b * 2 \<le> b * (n * A)" using b X by (intro mult_left_mono) simp_all
    from up 1 2 3 b show False by linarith
  qed
  with True show ?thesis by (simp add: floor_round64_def Let_def A_def m_def)
next
  case False
  define E :: int where "E = 2 ^ scale_down n b 0"
  define m where "m = rne n (b * E)"
  have E: "0 < E" by (simp add: E_def)
  have b0: "0 < b" using b by simp
  have n0: "0 < n" using n by simp
  have "1 * b \<le> 2 ^ 53 * b" using b0 by (intro mult_right_mono) simp_all
  with False have "2 ^ 52 * b * 2 ^ 0 \<le> n" by simp
  from scale_down_spec [OF b0 this] have s: "2 ^ 52 * b * E \<le> n" by (simp add: E_def)
  have bE: "0 < b * E" using b0 E by simp
  then have "1 * (b * E) \<le> 2 ^ 52 * (b * E)" by (intro mult_right_mono) simp_all
  with s have bEn: "b * E \<le> n" by (simp add: algebra_simps)
  have up: "2 * ((b * E) * m) \<le> 2 * n + b * E" unfolding m_def using bE by (rule rne_upper)
  have "m * E < n"
  proof (rule ccontr)
    assume "\<not> m * E < n"
    then have "n \<le> m * E" by simp
    then have "b * n \<le> b * (m * E)" using b0 by (intro mult_left_mono) simp_all
    then have 1: "b * n \<le> (b * E) * m" by (simp add: algebra_simps)
    have 2: "2 * n \<le> b * n" using b n0 by (intro mult_right_mono) simp_all
    from up 1 2 bEn n0 show False by linarith
  qed
  with False show ?thesis by (simp add: floor_round64_def Let_def E_def m_def)
qed

lemma Math_floor_div_less:
  assumes n: "0 < n" and b: "2 \<le> b"
  shows "Math_floor_div n b < n"
proof (cases "n < 2 ^ 53")
  case True
  with n b have "Math_floor_div n b = n div b" by (intro Math_floor_div_safe) simp_all
  also have "\<dots> < n" using n b by (intro int_div_less_self) simp_all
  finally show ?thesis .
next
  case False
  then have "floor_round64 n b < n" using b by (intro floor_round64_less) simp_all
  with n show ?thesis by (simp add: Math_floor_div_def)
qed

lemma Math_floor_div_pos_less:
  "2 \<le> b \<Longrightarrow> 0 < Math_floor_div n b \<Longrightarrow> 0 < n \<and> Math_floor_div n b < n"
  using Math_floor_div_nonpos [of n b] Math_floor_div_less [of n b] by (cases "0 < n") auto

subsection \<open>Alphabets\<close>

definition chars36 :: string where
  "chars36 = ''0123456789abcdefghijklmnopqrstuvwxyz''"

definition chars62 :: string where
  "chars62 = ''0123456789abcdefghijklmnopqrstuvwxyzABCDEFGHIJKLMNOPQRSTUVWXYZ''"

text \<open>The alphabet literal of \<^verbatim>\<open>compressMillisBase94\<close>, character for character.\<close>

definition chars94 :: string where
  "chars94 = ''0123456789abcdefghijklmnopqrstuvwxyzABCDEFGHIJKLMNOPQRSTUVWXYZ!#$%&()*+,-./:;<=>?@[]^_{|}~''"

subsection \<open>The digit loops\<close>

text \<open>
  Each encoder carries its own copy of the loop
  \<^verbatim>\<open>do { result = chars[number % base] + result; number = Math.floor(number / base); } while (number > 0);\<close>
  with \<^verbatim>\<open>base = chars.length\<close>. The copies over the 62-character alphabet (in
  \<^verbatim>\<open>compressMillisBase62\<close>, \<^verbatim>\<open>compressMillisVariable\<close>, \<^verbatim>\<open>compressTimestampSeries\<close>
  and \<^verbatim>\<open>compressSplitDaysTime\<close>) are identical; so are the copies of
  \<^verbatim>\<open>compressMillisBase62\<close> that several files of the repository define.
  The body runs once before the test, as in a do-while.

  \<open>base36_loop\<close>, \<open>base62_loop\<close> and \<open>base94_loop\<close> are the loop with the quotient
  taken exactly. This is what the code computes as long as the number is below 2^53, and
  on every negative number, where the body runs once. \<open>base36_loop_f64\<close>,
  \<open>base62_loop_f64\<close> and \<open>base94_loop_f64\<close> are the loop with the binary64 rounding
  of the division written out; they are the code on every number.
\<close>

function base36_loop :: "int \<Rightarrow> string \<Rightarrow> string" where
  "base36_loop number result =
     (let base = int (length chars36);
          result' = index_str chars36 (js_rem number base) @ result;
          number' = number div base
      in if number' > 0 then base36_loop number' result' else result')"
  by pat_completeness auto
termination
  by (relation "measure (\<lambda>(number, result). nat number)") (auto simp: chars36_def)

function base62_loop :: "int \<Rightarrow> string \<Rightarrow> string" where
  "base62_loop number result =
     (let base = int (length chars62);
          result' = index_str chars62 (js_rem number base) @ result;
          number' = number div base
      in if number' > 0 then base62_loop number' result' else result')"
  by pat_completeness auto
termination
  by (relation "measure (\<lambda>(number, result). nat number)") (auto simp: chars62_def)

function base94_loop :: "int \<Rightarrow> string \<Rightarrow> string" where
  "base94_loop number result =
     (let base = int (length chars94);
          result' = index_str chars94 (js_rem number base) @ result;
          number' = number div base
      in if number' > 0 then base94_loop number' result' else result')"
  by pat_completeness auto
termination
  by (relation "measure (\<lambda>(number, result). nat number)") (auto simp: chars94_def)

declare base36_loop.simps [simp del] base62_loop.simps [simp del] base94_loop.simps [simp del]

function base36_loop_f64 :: "int \<Rightarrow> string \<Rightarrow> string" where
  "base36_loop_f64 number result =
     (let base = int (length chars36);
          result' = index_str chars36 (js_rem number base) @ result;
          number' = Math_floor_div number base
      in if number' > 0 then base36_loop_f64 number' result' else result')"
  by pat_completeness auto
termination
proof (relation "measure (\<lambda>(number, result). nat number)")
  fix number :: int and result :: string and base result' number'
  assume "base = int (length chars36)" and "number' = Math_floor_div number base"
    and "0 < number'"
  then have "0 < number \<and> number' < number"
    using Math_floor_div_pos_less [of base number] by (simp add: chars36_def)
  then show "((number', result'), (number, result)) \<in> measure (\<lambda>(number, result). nat number)"
    by simp
qed simp

function base62_loop_f64 :: "int \<Rightarrow> string \<Rightarrow> string" where
  "base62_loop_f64 number result =
     (let base = int (length chars62);
          result' = index_str chars62 (js_rem number base) @ result;
          number' = Math_floor_div number base
      in if number' > 0 then base62_loop_f64 number' result' else result')"
  by pat_completeness auto
termination
proof (relation "measure (\<lambda>(number, result). nat number)")
  fix number :: int and result :: string and base result' number'
  assume "base = int (length chars62)" and "number' = Math_floor_div number base"
    and "0 < number'"
  then have "0 < number \<and> number' < number"
    using Math_floor_div_pos_less [of base number] by (simp add: chars62_def)
  then show "((number', result'), (number, result)) \<in> measure (\<lambda>(number, result). nat number)"
    by simp
qed simp

function base94_loop_f64 :: "int \<Rightarrow> string \<Rightarrow> string" where
  "base94_loop_f64 number result =
     (let base = int (length chars94);
          result' = index_str chars94 (js_rem number base) @ result;
          number' = Math_floor_div number base
      in if number' > 0 then base94_loop_f64 number' result' else result')"
  by pat_completeness auto
termination
proof (relation "measure (\<lambda>(number, result). nat number)")
  fix number :: int and result :: string and base result' number'
  assume "base = int (length chars94)" and "number' = Math_floor_div number base"
    and "0 < number'"
  then have "0 < number \<and> number' < number"
    using Math_floor_div_pos_less [of base number] by (simp add: chars94_def)
  then show "((number', result'), (number, result)) \<in> measure (\<lambda>(number, result). nat number)"
    by simp
qed simp

declare base36_loop_f64.simps [simp del] base62_loop_f64.simps [simp del]
  base94_loop_f64.simps [simp del]

subsection \<open>Direct encoders\<close>

text \<open>
  \<^verbatim>\<open>compressMillisCustom\<close> (Base36), \<^verbatim>\<open>compressMillisBase62\<close> and
  \<^verbatim>\<open>compressMillisBase94\<close>, first with the exact loop, then with the binary64 loop.
\<close>

definition compressMillisCustom :: "int \<Rightarrow> string" where
  "compressMillisCustom millis = base36_loop millis ''''"

definition compressMillisBase62 :: "int \<Rightarrow> string" where
  "compressMillisBase62 millis = base62_loop millis ''''"

definition compressMillisBase94 :: "int \<Rightarrow> string" where
  "compressMillisBase94 millis = base94_loop millis ''''"

definition compressMillisCustom_f64 :: "int \<Rightarrow> string" where
  "compressMillisCustom_f64 millis = base36_loop_f64 millis ''''"

definition compressMillisBase62_f64 :: "int \<Rightarrow> string" where
  "compressMillisBase62_f64 millis = base62_loop_f64 millis ''''"

definition compressMillisBase94_f64 :: "int \<Rightarrow> string" where
  "compressMillisBase94_f64 millis = base94_loop_f64 millis ''''"

subsection \<open>Reference-relative encoder\<close>

text \<open>
  \<^verbatim>\<open>compressMillisVariable(millis, referenceDate = 1577836800000)\<close>: an omitted second
  argument is \<open>None\<close>. The difference is a binary64 subtraction.
\<close>

definition compressMillisVariable :: "int \<Rightarrow> int option \<Rightarrow> string" where
  "compressMillisVariable millis referenceDate =
     (let ref = (case referenceDate of None \<Rightarrow> 1577836800000 | Some r \<Rightarrow> r);
          diff = js_sub millis ref;
          sign = (if diff \<ge> 0 then CHR ''+'' else CHR ''-'');
          absDiff = \<bar>diff\<bar>
      in sign # base62_loop_f64 absDiff '''')"

subsection \<open>Dates\<close>

text \<open>
  \<^verbatim>\<open>millisecondsToDaysAndTime\<close> builds \<^verbatim>\<open>Date\<close> objects and reads the local calendar
  day from them. These operations belong to the runtime; they are written here as the
  ECMAScript language specification defines them. A time value is a number of
  milliseconds since the epoch or \<^verbatim>\<open>NaN\<close>, the value of an invalid date, modelled as
  \<open>None\<close>. The only part the specification leaves to the host is the offset of local
  time from UTC, \<^verbatim>\<open>LocalTZA(t, isUTC)\<close>: it is the parameter \<open>tza\<close> of every operation
  that depends on the time zone of the process.
\<close>

text \<open>\<^verbatim>\<open>TimeClip\<close>: a date holds at most 8.64e15 milliseconds to either side of the epoch.\<close>

definition TimeClip :: "int \<Rightarrow> int option" where
  "TimeClip t = (if \<bar>t\<bar> \<le> 8640000000000000 then Some t else None)"

definition Day :: "int \<Rightarrow> int" where
  "Day t = t div 86400000"

definition DayFromYear :: "int \<Rightarrow> int" where
  "DayFromYear y =
     365 * (y - 1970) + (y - 1969) div 4 - (y - 1901) div 100 + (y - 1601) div 400"

definition InLeapYear :: "int \<Rightarrow> bool" where
  "InLeapYear y = ((y mod 4 = 0 \<and> y mod 100 \<noteq> 0) \<or> y mod 400 = 0)"

text \<open>A year has 365 or 366 days, so \<open>DayFromYear\<close> is strictly increasing.\<close>

lemma div_step:
  fixes x k :: int
  assumes "0 < k"
  shows "x div k \<le> (x + 1) div k \<and> (x + 1) div k \<le> x div k + 1"
proof
  show "x div k \<le> (x + 1) div k"
    using assms by (intro zdiv_mono1) simp_all
  have "(x + 1) div k \<le> (x + k) div k"
    using assms by (intro zdiv_mono1) simp_all
  also have "\<dots> = x div k + 1"
  proof -
    have "k \<noteq> 0"
      using assms by simp
    then show ?thesis
      by (rule div_add_self2)
  qed
  finally show "(x + 1) div k \<le> x div k + 1" .
qed

lemma DayFromYear_step:
  "DayFromYear y + 364 \<le> DayFromYear (y + 1) \<and> DayFromYear (y + 1) \<le> DayFromYear y + 367"
proof -
  have a: "y + 1 - 1969 = y - 1969 + 1" "y + 1 - 1901 = y - 1901 + 1"
    "y + 1 - 1601 = y - 1601 + 1"
    by simp_all
  show ?thesis
    unfolding DayFromYear_def a
    using div_step [of 4 "y - 1969"] div_step [of 100 "y - 1901"] div_step [of 400 "y - 1601"]
    by simp
qed

text \<open>
  \<^verbatim>\<open>YearFromTime(t)\<close> is the largest year whose first day is not after the day of
  \<open>t\<close>. The search starts from an estimate, moves down while the year starts too late
  and then up while the next year has already started.
\<close>

function year_down :: "int \<Rightarrow> int \<Rightarrow> int" where
  "year_down y d = (if d < DayFromYear y then year_down (y - 1) d else y)"
  by pat_completeness auto
termination
proof (relation "measure (\<lambda>(y, d). nat (DayFromYear y - d))")
  fix y d :: int
  assume "d < DayFromYear y"
  moreover have "DayFromYear (y - 1) < DayFromYear y"
    using DayFromYear_step [of "y - 1"] by simp
  ultimately show "((y - 1, d), (y, d)) \<in> measure (\<lambda>(y, d). nat (DayFromYear y - d))"
    by simp
qed simp

function year_up :: "int \<Rightarrow> int \<Rightarrow> int" where
  "year_up y d = (if DayFromYear (y + 1) \<le> d then year_up (y + 1) d else y)"
  by pat_completeness auto
termination
proof (relation "measure (\<lambda>(y, d). nat (d - DayFromYear y))")
  fix y d :: int
  assume "DayFromYear (y + 1) \<le> d"
  moreover have "DayFromYear y < DayFromYear (y + 1)"
    using DayFromYear_step [of y] by simp
  ultimately show "((y + 1, d), (y, d)) \<in> measure (\<lambda>(y, d). nat (d - DayFromYear y))"
    by simp
qed simp

declare year_down.simps [simp del] year_up.simps [simp del]

definition YearFromTime :: "int \<Rightarrow> int" where
  "YearFromTime t = year_up (year_down (1970 + Day t div 365) (Day t)) (Day t)"

definition DayWithinYear :: "int \<Rightarrow> int" where
  "DayWithinYear t = Day t - DayFromYear (YearFromTime t)"

text \<open>
  The first day of month \<open>m\<close> (0 to 11) within a year, \<open>leap\<close> being 1 in a leap year
  and 0 otherwise; \<^verbatim>\<open>MonthFromTime\<close> and \<^verbatim>\<open>DateFromTime\<close> are the specification's tables.
\<close>

definition monthStart :: "int \<Rightarrow> int \<Rightarrow> int" where
  "monthStart m leap =
     (if m = 0 then 0 else if m = 1 then 31
      else if m = 2 then 59 + leap else if m = 3 then 90 + leap
      else if m = 4 then 120 + leap else if m = 5 then 151 + leap
      else if m = 6 then 181 + leap else if m = 7 then 212 + leap
      else if m = 8 then 243 + leap else if m = 9 then 273 + leap
      else if m = 10 then 304 + leap else 334 + leap)"

definition MonthFromTime :: "int \<Rightarrow> int" where
  "MonthFromTime t =
     (let d = DayWithinYear t;
          leap = (if InLeapYear (YearFromTime t) then 1 else 0)
      in if d < 31 then 0 else if d < 59 + leap then 1
         else if d < 90 + leap then 2 else if d < 120 + leap then 3
         else if d < 151 + leap then 4 else if d < 181 + leap then 5
         else if d < 212 + leap then 6 else if d < 243 + leap then 7
         else if d < 273 + leap then 8 else if d < 304 + leap then 9
         else if d < 334 + leap then 10 else 11)"

definition DateFromTime :: "int \<Rightarrow> int" where
  "DateFromTime t =
     (let d = DayWithinYear t;
          leap = (if InLeapYear (YearFromTime t) then 1 else 0);
          m = MonthFromTime t
      in if m = 0 then d + 1 else if m = 1 then d - 30
         else if m = 2 then d - 58 - leap else if m = 3 then d - 89 - leap
         else if m = 4 then d - 119 - leap else if m = 5 then d - 150 - leap
         else if m = 6 then d - 180 - leap else if m = 7 then d - 211 - leap
         else if m = 8 then d - 242 - leap else if m = 9 then d - 272 - leap
         else if m = 10 then d - 303 - leap else d - 333 - leap)"

text \<open>
  \<^verbatim>\<open>MakeDay(year, month, date)\<close>: the day number of the given calendar date; months
  outside 0 to 11 carry into the year.
\<close>

definition MakeDay :: "int \<Rightarrow> int \<Rightarrow> int \<Rightarrow> int" where
  "MakeDay year month date =
     (let ym = year + month div 12;
          mn = month mod 12
      in DayFromYear ym + monthStart mn (if InLeapYear ym then 1 else 0) + date - 1)"

text \<open>
  \<^verbatim>\<open>new Date(millis)\<close> holds \<open>TimeClip millis\<close>. \<^verbatim>\<open>getFullYear()\<close>, \<^verbatim>\<open>getMonth()\<close> and
  \<^verbatim>\<open>getDate()\<close> read the calendar date of the local time \<open>t + tza t True\<close>.
\<close>

definition LocalTime :: "(int \<Rightarrow> bool \<Rightarrow> int) \<Rightarrow> int \<Rightarrow> int" where
  "LocalTime tza t = t + tza t True"

definition getFullYear :: "(int \<Rightarrow> bool \<Rightarrow> int) \<Rightarrow> int \<Rightarrow> int" where
  "getFullYear tza t = YearFromTime (LocalTime tza t)"

definition getMonth :: "(int \<Rightarrow> bool \<Rightarrow> int) \<Rightarrow> int \<Rightarrow> int" where
  "getMonth tza t = MonthFromTime (LocalTime tza t)"

definition getDate :: "(int \<Rightarrow> bool \<Rightarrow> int) \<Rightarrow> int \<Rightarrow> int" where
  "getDate tza t = DateFromTime (LocalTime tza t)"

text \<open>
  \<^verbatim>\<open>new Date(year, month, date)\<close>: midnight of the given local calendar date, as a UTC
  time value. A year from 0 to 99 stands for 1900 to 1999. The local time \<open>t\<close> is
  turned into UTC with the offset \<open>tza t False\<close>, and the result is clipped.
\<close>

definition Date_ymd :: "(int \<Rightarrow> bool \<Rightarrow> int) \<Rightarrow> int \<Rightarrow> int \<Rightarrow> int \<Rightarrow> int option" where
  "Date_ymd tza year month date =
     (let yr = (if 0 \<le> year \<and> year \<le> 99 then 1900 + year else year);
          finalDate = MakeDay yr month date * 86400000
      in TimeClip (finalDate - tza finalDate False))"

text \<open>
  Hosts. A zone with a fixed offset from UTC (\<open>off = 0\<close> is UTC), and a zone that changes
  its offset from \<open>off1\<close> to \<open>off2\<close> at the instant \<open>change\<close>; a local time that occurs
  twice or not at all at the change is read with the offset before it, as the
  specification prescribes.
\<close>

definition fixedZone :: "int \<Rightarrow> int \<Rightarrow> bool \<Rightarrow> int" where
  "fixedZone off t isUTC = off"

definition changingZone :: "int \<Rightarrow> int \<Rightarrow> int \<Rightarrow> int \<Rightarrow> bool \<Rightarrow> int" where
  "changingZone change off1 off2 t isUTC =
     (if isUTC then (if t < change then off1 else off2)
      else (if t < change + max off1 off2 then off1 else off2))"

subsection \<open>Split day/time encoder\<close>

text \<open>
  \<^verbatim>\<open>millisecondsToDaysAndTime\<close>. Both results are numbers that can be \<^verbatim>\<open>NaN\<close>:
  arithmetic on an invalid date yields \<^verbatim>\<open>NaN\<close>.
\<close>

record day_time =
  daysSinceEpoch :: "int option"
  millisSinceMidnight :: "int option"

definition millisecondsToDaysAndTime :: "(int \<Rightarrow> bool \<Rightarrow> int) \<Rightarrow> int \<Rightarrow> day_time" where
  "millisecondsToDaysAndTime tza millis =
     (let date = TimeClip millis;
          epoch = TimeClip 0;
          days = (case (date, epoch) of
                    (Some d, Some e) \<Rightarrow> Some (Math_floor_div (js_sub d e) (24 * 60 * 60 * 1000))
                  | _ \<Rightarrow> None);
          midnight = (case date of
                        Some d \<Rightarrow> Date_ymd tza (getFullYear tza d) (getMonth tza d) (getDate tza d)
                      | None \<Rightarrow> None);
          sinceMidnight = (case (date, midnight) of
                             (Some d, Some m) \<Rightarrow> Some (js_sub d m)
                           | _ \<Rightarrow> None)
      in \<lparr>daysSinceEpoch = days, millisSinceMidnight = sinceMidnight\<rparr>)"

text \<open>
  The Base62 loop of \<^verbatim>\<open>compressSplitDaysTime\<close> on a number that can be \<^verbatim>\<open>NaN\<close>: then
  \<^verbatim>\<open>chars[NaN]\<close> is \<^verbatim>\<open>undefined\<close> and \<^verbatim>\<open>NaN > 0\<close> is false, so the body runs once.
\<close>

definition base62_loop_nan :: "int option \<Rightarrow> string \<Rightarrow> string" where
  "base62_loop_nan number result =
     (case number of None \<Rightarrow> ''undefined'' @ result | Some n \<Rightarrow> base62_loop_f64 n result)"

definition compressSplitDaysTime :: "(int \<Rightarrow> bool \<Rightarrow> int) \<Rightarrow> int \<Rightarrow> string" where
  "compressSplitDaysTime tza millis =
     (let dt = millisecondsToDaysAndTime tza millis;
          daysResult = base62_loop_nan (daysSinceEpoch dt) '''';
          timeResult = base62_loop_nan (millisSinceMidnight dt) ''''
      in daysResult @ '':'' @ timeResult)"

subsection \<open>Fixed-width binary encoder\<close>

datatype error = RangeError | InvalidCharacter | InvalidFormat | InvalidLength

text \<open>
  A Node.js \<^verbatim>\<open>Buffer\<close> is a list of bytes. \<^verbatim>\<open>writeUInt16BE\<close> and \<^verbatim>\<open>writeUInt32BE\<close>
  throw a \<^verbatim>\<open>RangeError\<close> when the number is outside the unsigned range or the bytes
  do not fit at the offset; otherwise they store the bytes most significant first.
\<close>

type_synonym buffer = "nat list"

definition Buffer_alloc :: "nat \<Rightarrow> buffer" where
  "Buffer_alloc n = replicate n 0"

definition writeUInt16BE :: "int \<Rightarrow> nat \<Rightarrow> buffer \<Rightarrow> error + buffer" where
  "writeUInt16BE v offset buf =
     (if v < 0 \<or> v > 65535 \<or> offset + 2 > length buf then Inl RangeError
      else Inr (buf[offset := nat ((v div 256) mod 256),
                    offset + 1 := nat (v mod 256)]))"

definition writeUInt32BE :: "int \<Rightarrow> nat \<Rightarrow> buffer \<Rightarrow> error + buffer" where
  "writeUInt32BE v offset buf =
     (if v < 0 \<or> v > 4294967295 \<or> offset + 4 > length buf then Inl RangeError
      else Inr (buf[offset := nat ((v div 16777216) mod 256),
                    offset + 1 := nat ((v div 65536) mod 256),
                    offset + 2 := nat ((v div 256) mod 256),
                    offset + 3 := nat (v mod 256)]))"

text \<open>\<^verbatim>\<open>buffer.toString('base64')\<close>: standard base64 with \<^verbatim>\<open>=\<close> padding.\<close>

definition b64chars :: string where
  "b64chars = ''ABCDEFGHIJKLMNOPQRSTUVWXYZabcdefghijklmnopqrstuvwxyz0123456789+/''"

fun toString_base64 :: "buffer \<Rightarrow> string" where
  "toString_base64 (a # b # c # rest) =
     [b64chars ! (a div 4), b64chars ! ((a mod 4) * 16 + b div 16),
      b64chars ! ((b mod 16) * 4 + c div 64), b64chars ! (c mod 64)] @ toString_base64 rest"
| "toString_base64 [a, b] =
     [b64chars ! (a div 4), b64chars ! ((a mod 4) * 16 + b div 16),
      b64chars ! ((b mod 16) * 4), CHR ''='']"
| "toString_base64 [a] =
     [b64chars ! (a div 4), b64chars ! ((a mod 4) * 16), CHR ''='', CHR ''='']"
| "toString_base64 [] = []"

definition compressMillisBitPacked :: "int \<Rightarrow> error + string" where
  "compressMillisBitPacked millis =
     (let MS_PER_DAY = 24 * 60 * 60 * 1000;
          days = millis div MS_PER_DAY;
          msInDay = js_rem millis MS_PER_DAY
      in if days > 65535 then Inr (''F_'' @ compressMillisBase62 millis)
         else (case writeUInt16BE days 0 (Buffer_alloc 6) of
                 Inl e \<Rightarrow> Inl e
               | Inr buffer1 \<Rightarrow>
                   (case writeUInt32BE msInDay 2 buffer1 of
                      Inl e \<Rightarrow> Inl e
                    | Inr buffer2 \<Rightarrow> Inr (toString_base64 buffer2))))"

text \<open>
  \<open>compressMillisBitPacked\<close> takes the quotient and the Base62 fallback exactly;
  \<open>compressMillisBitPacked_f64\<close> is the same function with the binary64 rounding of the
  division written out and the binary64 Base62 encoder in the fallback.
\<close>

definition compressMillisBitPacked_f64 :: "int \<Rightarrow> error + string" where
  "compressMillisBitPacked_f64 millis =
     (let MS_PER_DAY = 24 * 60 * 60 * 1000;
          days = Math_floor_div millis MS_PER_DAY;
          msInDay = js_rem millis MS_PER_DAY
      in if days > 65535 then Inr (''F_'' @ compressMillisBase62_f64 millis)
         else (case writeUInt16BE days 0 (Buffer_alloc 6) of
                 Inl e \<Rightarrow> Inl e
               | Inr buffer1 \<Rightarrow>
                   (case writeUInt32BE msInDay 2 buffer1 of
                      Inl e \<Rightarrow> Inl e
                    | Inr buffer2 \<Rightarrow> Inr (toString_base64 buffer2))))"

subsection \<open>Sequence/delta encoder\<close>

text \<open>
  The \<^verbatim>\<open>for\<close> loop of \<^verbatim>\<open>compressTimestampSeries\<close>, with its index. The delta is a
  binary64 subtraction.
\<close>

function series_loop :: "int list \<Rightarrow> nat \<Rightarrow> int \<Rightarrow> string \<Rightarrow> string" where
  "series_loop timestamps i prev result =
     (if i < length timestamps then
        (let delta = js_sub (timestamps ! i) prev;
             prev' = timestamps ! i;
             deltaEncoded = base62_loop_f64 \<bar>delta\<bar> '''';
             signChar = (if delta \<ge> 0 then CHR ''+'' else CHR ''-'')
         in series_loop timestamps (i + 1) prev' (result @ signChar # deltaEncoded))
      else result)"
  by pat_completeness auto
termination
  by (relation "measure (\<lambda>(timestamps, i, prev, result). length timestamps - i)") auto

declare series_loop.simps [simp del]

definition compressTimestampSeries :: "int list \<Rightarrow> string" where
  "compressTimestampSeries timestamps =
     (if length timestamps = 0 then ''''
      else series_loop timestamps 1 (timestamps ! 0)
             (compressMillisBase62_f64 (timestamps ! 0)))"

subsection \<open>Decoders\<close>

text \<open>
  The source defines encoders only. Every definition of this subsection is missing from the
  source and follows the Decode paragraph that the specification's component design gives
  for its codec.
\<close>

text \<open>
  Modelled from the spec: the lookup behind Decode's \<open>InvalidCharacter\<close> check, missing
  from the source. The position of a character in an alphabet, \<open>None\<close> when it is absent.
\<close>

fun char_index :: "string \<Rightarrow> char \<Rightarrow> nat option" where
  "char_index [] c = None"
| "char_index (x # xs) c = (if x = c then Some 0 else map_option Suc (char_index xs c))"

text \<open>
  Modelled from the spec: the digit loop of the digit-alphabet Decode, missing from the
  source: most significant digit first, failing with \<open>InvalidCharacter\<close> on a character
  that is not in the alphabet.
\<close>

fun decode_acc :: "string \<Rightarrow> int \<Rightarrow> string \<Rightarrow> error + int" where
  "decode_acc alphabet acc [] = Inr acc"
| "decode_acc alphabet acc (c # cs) =
     (case char_index alphabet c of
        None \<Rightarrow> Inl InvalidCharacter
      | Some d \<Rightarrow> decode_acc alphabet (acc * int (length alphabet) + int d) cs)"

text \<open>
  Modelled from the spec: the digit-alphabet Decode(text, alphabet), missing from the source.
  The specification is silent on the empty text; it is rejected here.
\<close>

definition decodeDigits :: "string \<Rightarrow> string \<Rightarrow> error + int" where
  "decodeDigits text alphabet =
     (if text = [] then Inl InvalidFormat else decode_acc alphabet 0 text)"

text \<open>
  Modelled from the spec: the Base36 decoder, missing from the source: Decode at the
  alphabet of \<^verbatim>\<open>compressMillisCustom\<close>.
\<close>

definition decodeBase36 :: "string \<Rightarrow> error + int" where
  "decodeBase36 text = decodeDigits text chars36"

text \<open>
  Modelled from the spec: the Base62 decoder, missing from the source: Decode at the
  alphabet of \<^verbatim>\<open>compressMillisBase62\<close>.
\<close>

definition decodeBase62 :: "string \<Rightarrow> error + int" where
  "decodeBase62 text = decodeDigits text chars62"

text \<open>
  Modelled from the spec: the Base94 decoder, missing from the source: Decode at the
  alphabet of \<^verbatim>\<open>compressMillisBase94\<close>.
\<close>

definition decodeBase94 :: "string \<Rightarrow> error + int" where
  "decodeBase94 text = decodeDigits text chars94"

text \<open>
  Modelled from the spec: the reference-relative decoder, missing from the source. It
  parses the sign character, decodes the remainder as Base62, applies the sign and adds the
  reference epoch; a missing or different first character is an \<open>InvalidFormat\<close>.
\<close>

definition decodeVariable :: "string \<Rightarrow> int option \<Rightarrow> error + int" where
  "decodeVariable text referenceDate =
     (let ref = (case referenceDate of None \<Rightarrow> 1577836800000 | Some r \<Rightarrow> r)
      in case text of
           [] \<Rightarrow> Inl InvalidFormat
         | s # rest \<Rightarrow>
             if s = CHR ''+'' then
               (case decodeDigits rest chars62 of Inl e \<Rightarrow> Inl e | Inr m \<Rightarrow> Inr (ref + m))
             else if s = CHR ''-'' then
               (case decodeDigits rest chars62 of Inl e \<Rightarrow> Inl e | Inr m \<Rightarrow> Inr (ref - m))
             else Inl InvalidFormat)"

text \<open>
  Modelled from the spec: the split day/time decoder, missing from the source. It splits on
  the first \<^verbatim>\<open>:\<close>, decodes each side as Base62 and rebuilds
  \<open>days * 86400000 + millis\<close>, adjusted for the local-day definition used at encode time.
  The adjustment is written for a zone with a fixed offset \<open>off\<close> from UTC: there the
  milliseconds since local midnight are the milliseconds of the UTC day shifted by
  \<open>off\<close>, modulo one day.
\<close>

definition decodeSplitDaysTime :: "int \<Rightarrow> string \<Rightarrow> error + int" where
  "decodeSplitDaysTime off text =
     (let daysText = takeWhile (\<lambda>c. c \<noteq> CHR '':'') text;
          restText = dropWhile (\<lambda>c. c \<noteq> CHR '':'') text
      in case restText of
           [] \<Rightarrow> Inl InvalidFormat
         | sep # timeText \<Rightarrow>
             (case decodeDigits daysText chars62 of
                Inl e \<Rightarrow> Inl e
              | Inr days \<Rightarrow>
                  (case decodeDigits timeText chars62 of
                     Inl e \<Rightarrow> Inl e
                   | Inr ms \<Rightarrow> Inr (days * 86400000 + (ms - off) mod 86400000))))"

text \<open>
  Modelled from the spec: the base64 decoding step of the fixed-width decoder, missing from
  the source: the inverse of \<^verbatim>\<open>toString('base64')\<close>, four characters at a time with
  \<^verbatim>\<open>=\<close> padding in the last group.
\<close>

fun base64_decode :: "string \<Rightarrow> error + buffer" where
  "base64_decode [] = Inr []"
| "base64_decode (a # b # c # d # rest) =
     (case (char_index b64chars a, char_index b64chars b) of
        (Some x, Some y) \<Rightarrow>
          if c = CHR ''='' \<and> d = CHR ''='' \<and> rest = [] then Inr [x * 4 + y div 16]
          else (case char_index b64chars c of
                  None \<Rightarrow> Inl InvalidCharacter
                | Some z \<Rightarrow>
                    if d = CHR ''='' \<and> rest = [] then
                      Inr [x * 4 + y div 16, (y mod 16) * 16 + z div 4]
                    else (case char_index b64chars d of
                            None \<Rightarrow> Inl InvalidCharacter
                          | Some w \<Rightarrow>
                              (case base64_decode rest of
                                 Inl e \<Rightarrow> Inl e
                               | Inr bytes \<Rightarrow>
                                   Inr ([x * 4 + y div 16, (y mod 16) * 16 + z div 4,
                                         (z mod 4) * 64 + w] @ bytes))))
      | _ \<Rightarrow> Inl InvalidCharacter)"
| "base64_decode _ = Inl InvalidLength"

text \<open>
  Modelled from the spec: the fixed-width decoder, missing from the source. It checks for
  the \<^verbatim>\<open>F_\<close> marker first; otherwise it base64-decodes to exactly 6 bytes
  (\<open>InvalidLength\<close> if not), reads the two big-endian fields and rebuilds
  \<open>days * 86400000 + millisInDay\<close>.
\<close>

definition decodeBitPacked :: "string \<Rightarrow> error + int" where
  "decodeBitPacked text =
     (if take 2 text = ''F_'' then decodeBase62 (drop 2 text)
      else (case base64_decode text of
              Inl e \<Rightarrow> Inl e
            | Inr bytes \<Rightarrow>
                if length bytes \<noteq> 6 then Inl InvalidLength
                else (let days = int (bytes ! 0 * 256 + bytes ! 1);
                          ms = int (((bytes ! 2 * 256 + bytes ! 3) * 256 + bytes ! 4) * 256
                                    + bytes ! 5)
                      in Inr (days * 86400000 + ms))))"

text \<open>
  Modelled from the spec: the entry boundaries of the sequence decoder, missing from the
  source: a plus or a minus starts a new entry, any other character continues one.
\<close>

definition isSign :: "char \<Rightarrow> bool" where
  "isSign c = (c = CHR ''+'' \<or> c = CHR ''-'')"

text \<open>
  Modelled from the spec: the scan of the sequence decoder, missing from the source. It cuts
  the text in front of every sign character: the first entry is the leading run without a
  sign, every later entry is one sign character followed by the maximal run after it.
\<close>

fun splitEntries :: "string \<Rightarrow> string list" where
  "splitEntries [] = [[]]"
| "splitEntries (c # cs) =
     (case splitEntries cs of
        [] \<Rightarrow> [[c]]
      | e # es \<Rightarrow> if isSign c then [] # (c # e) # es else (c # e) # es)"

text \<open>
  Modelled from the spec: the delta entries of the sequence decoder, missing from the source.
  Each entry is a sign and a Base62 run, added to or subtracted from the value before it.
\<close>

fun decodeDeltas :: "int \<Rightarrow> string list \<Rightarrow> error + int list" where
  "decodeDeltas prev [] = Inr []"
| "decodeDeltas prev ([] # es) = Inl InvalidFormat"
| "decodeDeltas prev ((s # run) # es) =
     (case decodeDigits run chars62 of
        Inl e \<Rightarrow> Inl e
      | Inr m \<Rightarrow>
          (let cur = (if s = CHR ''+'' then prev + m else prev - m)
           in case decodeDeltas cur es of
                Inl e \<Rightarrow> Inl e
              | Inr later \<Rightarrow> Inr (cur # later)))"

text \<open>
  Modelled from the spec: the sequence decoder, missing from the source. It reads the leading
  Base62 run as the first value and the entries after it as deltas; the empty text is the
  empty series.
\<close>

definition decodeTimestampSeries :: "string \<Rightarrow> error + int list" where
  "decodeTimestampSeries text =
     (if text = [] then Inr []
      else (case splitEntries text of
              [] \<Rightarrow> Inl InvalidFormat
            | first # entries \<Rightarrow>
                (case decodeDigits first chars62 of
                   Inl e \<Rightarrow> Inl e
                 | Inr t0 \<Rightarrow>
                     (case decodeDeltas t0 entries of
                        Inl e \<Rightarrow> Inl e
                      | Inr later \<Rightarrow> Inr (t0 # later)))))"

subsection \<open>Auxiliary notions for the sequence encoder\<close>

text \<open>
  The text that one round of the \<^verbatim>\<open>for\<close> loop appends for the step from \<open>p\<close> to
  \<open>c\<close>: the sign character of the binary64 difference and the Base62 digits of its
  magnitude.
\<close>

definition deltaEntry :: "int \<Rightarrow> int \<Rightarrow> string" where
  "deltaEntry p c =
     (if js_sub c p \<ge> 0 then CHR ''+'' else CHR ''-'') # compressMillisBase62_f64 \<bar>js_sub c p\<bar>"

subsection \<open>Positional numerals\<close>

text \<open>
  The digits of \<open>n\<close> in base \<open>b\<close>, most significant first, and the number a digit list
  denotes. They describe what the digit loops compute on a non-negative number.
\<close>

function digits_of :: "nat \<Rightarrow> nat \<Rightarrow> nat list" where
  "digits_of b n = (if b < 2 \<or> n < b then [n] else digits_of b (n div b) @ [n mod b])"
  by pat_completeness auto
termination
  by (relation "measure (\<lambda>(b, n). n)") auto

declare digits_of.simps [simp del]

definition digits_val :: "nat \<Rightarrow> nat list \<Rightarrow> nat" where
  "digits_val b ds = foldl (\<lambda>acc d. acc * b + d) 0 ds"

text \<open>
  Lexicographic order on strings under an alphabet's index ordering: characters are
  compared by their position in the alphabet.
\<close>

definition alphabet_rank :: "string \<Rightarrow> char \<Rightarrow> nat" where
  "alphabet_rank alphabet c = (case char_index alphabet c of None \<Rightarrow> length alphabet | Some i \<Rightarrow> i)"

fun lex_le :: "nat list \<Rightarrow> nat list \<Rightarrow> bool" where
  "lex_le [] ys = True"
| "lex_le (x # xs) [] = False"
| "lex_le (x # xs) (y # ys) = (x < y \<or> (x = y \<and> lex_le xs ys))"

definition alphabet_le :: "string \<Rightarrow> string \<Rightarrow> string \<Rightarrow> bool" where
  "alphabet_le alphabet s t = lex_le (map (alphabet_rank alphabet) s) (map (alphabet_rank alphabet) t)"

text \<open>The printable ASCII characters other than the space: codes 33 to 126.\<close>

definition printable_nonspace :: "char list" where
  "printable_nonspace = map char_of [33 ..< 127 :: nat]"

section \<open>Properties\<close>

subsection \<open>Alphabets and digits\<close>

lemma length_chars36: "length chars36 = 36"
  by (simp add: chars36_def)
lemma length_chars62: "length chars62 = 62"
  by (simp add: chars62_def)
lemma length_chars94: "length chars94 = 90"
  by (simp add: chars94_def)
lemma distinct_chars36: "distinct chars36"
  by (simp add: chars36_def)
lemma distinct_chars62: "distinct chars62"
  by (simp add: chars62_def)
lemma distinct_chars94: "distinct chars94"
  by (simp add: chars94_def)

lemma index_str_digit:
  "0 \<le> i \<Longrightarrow> i < int (length cs) \<Longrightarrow> index_str cs i = [cs ! nat i]"
  by (simp add: index_str_def)

lemma js_rem_nonneg: "0 \<le> a \<Longrightarrow> 0 < b \<Longrightarrow> js_rem a b = a mod b"
  by (simp add: js_rem_def)

lemma digits_of_small: "n < b \<Longrightarrow> digits_of b n = [n]"
  by (simp add: digits_of.simps)

lemma digits_of_step:
  "2 \<le> b \<Longrightarrow> b \<le> n \<Longrightarrow> digits_of b n = digits_of b (n div b) @ [n mod b]"
  by (subst digits_of.simps) simp

lemma digits_of_nonempty: "digits_of b n \<noteq> []"
  by (subst digits_of.simps) simp

lemma digits_of_bound: "2 \<le> b \<Longrightarrow> d \<in> set (digits_of b n) \<Longrightarrow> d < b"
proof (induction b n rule: digits_of.induct)
  case (1 b n)
  show ?case
  proof (cases "n < b")
    case True
    with "1.prems" show ?thesis by (simp add: digits_of_small)
  next
    case False
    with "1.prems" have "d \<in> set (digits_of b (n div b)) \<or> d = n mod b"
      by (auto simp: digits_of_step)
    with 1 False show ?thesis by auto
  qed
qed

lemma digits_val_snoc: "digits_val b (ds @ [d]) = digits_val b ds * b + d"
  by (simp add: digits_val_def)

lemma digits_val_digits_of: "2 \<le> b \<Longrightarrow> digits_val b (digits_of b n) = n"
proof (induction b n rule: digits_of.induct)
  case (1 b n)
  show ?case
  proof (cases "n < b")
    case True
    then show ?thesis by (simp add: digits_of_small digits_val_def)
  next
    case False
    with 1 show ?thesis by (simp add: digits_of_step digits_val_snoc)
  qed
qed

subsection \<open>What the digit loops compute on a non-negative number\<close>

lemma base36_loop_nonneg:
  "0 \<le> n \<Longrightarrow> base36_loop n r = map ((!) chars36) (digits_of 36 (nat n)) @ r"
proof (induction n r rule: base36_loop.induct)
  case (1 number result)
  have d: "index_str chars36 (js_rem number 36) = [chars36 ! nat (number mod 36)]"
    using "1.prems" by (simp add: js_rem_nonneg index_str_digit length_chars36)
  show ?case
  proof (cases "0 < number div 36")
    case True
    then have ge: "36 \<le> nat number" using "1.prems" by linarith
    have "base36_loop number result
        = base36_loop (number div 36) ([chars36 ! nat (number mod 36)] @ result)"
      using True d by (subst base36_loop.simps) (simp add: length_chars36)
    also have "\<dots> = map ((!) chars36) (digits_of 36 (nat (number div 36)))
                   @ [chars36 ! nat (number mod 36)] @ result"
      using "1.IH" [OF refl refl refl] True d by (simp add: length_chars36)
    finally show ?thesis
      using "1.prems" ge by (simp add: digits_of_step nat_div_distrib nat_mod_distrib)
  next
    case False
    then have lt: "nat number < 36" using "1.prems" by linarith
    have "base36_loop number result = [chars36 ! nat (number mod 36)] @ result"
      using False d by (subst base36_loop.simps) (simp add: length_chars36)
    with lt "1.prems" show ?thesis by (simp add: digits_of_small)
  qed
qed

lemma base62_loop_nonneg:
  "0 \<le> n \<Longrightarrow> base62_loop n r = map ((!) chars62) (digits_of 62 (nat n)) @ r"
proof (induction n r rule: base62_loop.induct)
  case (1 number result)
  have d: "index_str chars62 (js_rem number 62) = [chars62 ! nat (number mod 62)]"
    using "1.prems" by (simp add: js_rem_nonneg index_str_digit length_chars62)
  show ?case
  proof (cases "0 < number div 62")
    case True
    then have ge: "62 \<le> nat number" using "1.prems" by linarith
    have "base62_loop number result
        = base62_loop (number div 62) ([chars62 ! nat (number mod 62)] @ result)"
      using True d by (subst base62_loop.simps) (simp add: length_chars62)
    also have "\<dots> = map ((!) chars62) (digits_of 62 (nat (number div 62)))
                   @ [chars62 ! nat (number mod 62)] @ result"
      using "1.IH" [OF refl refl refl] True d by (simp add: length_chars62)
    finally show ?thesis
      using "1.prems" ge by (simp add: digits_of_step nat_div_distrib nat_mod_distrib)
  next
    case False
    then have lt: "nat number < 62" using "1.prems" by linarith
    have "base62_loop number result = [chars62 ! nat (number mod 62)] @ result"
      using False d by (subst base62_loop.simps) (simp add: length_chars62)
    with lt "1.prems" show ?thesis by (simp add: digits_of_small)
  qed
qed

lemma base94_loop_nonneg:
  "0 \<le> n \<Longrightarrow> base94_loop n r = map ((!) chars94) (digits_of 90 (nat n)) @ r"
proof (induction n r rule: base94_loop.induct)
  case (1 number result)
  have d: "index_str chars94 (js_rem number 90) = [chars94 ! nat (number mod 90)]"
    using "1.prems" by (simp add: js_rem_nonneg index_str_digit length_chars94)
  show ?case
  proof (cases "0 < number div 90")
    case True
    then have ge: "90 \<le> nat number" using "1.prems" by linarith
    have "base94_loop number result
        = base94_loop (number div 90) ([chars94 ! nat (number mod 90)] @ result)"
      using True d by (subst base94_loop.simps) (simp add: length_chars94)
    also have "\<dots> = map ((!) chars94) (digits_of 90 (nat (number div 90)))
                   @ [chars94 ! nat (number mod 90)] @ result"
      using "1.IH" [OF refl refl refl] True d by (simp add: length_chars94)
    finally show ?thesis
      using "1.prems" ge by (simp add: digits_of_step nat_div_distrib nat_mod_distrib)
  next
    case False
    then have lt: "nat number < 90" using "1.prems" by linarith
    have "base94_loop number result = [chars94 ! nat (number mod 90)] @ result"
      using False d by (subst base94_loop.simps) (simp add: length_chars94)
    with lt "1.prems" show ?thesis by (simp add: digits_of_small)
  qed
qed

subsection \<open>What the digit loops compute on a negative number\<close>

lemma js_rem_neg_range: "a < 0 \<Longrightarrow> 0 < b \<Longrightarrow> - b < js_rem a b \<and> js_rem a b \<le> 0"
  by (simp add: js_rem_def)

lemma js_rem_neg_zero: "a < 0 \<Longrightarrow> 0 < b \<Longrightarrow> (js_rem a b = 0) = (b dvd a)"
  by (simp add: js_rem_def dvd_eq_mod_eq_0 [symmetric])

lemma index_str_neg_rem:
  assumes "a < 0" "0 < length cs"
  shows "index_str cs (js_rem a (int (length cs)))
         = (if int (length cs) dvd a then [cs ! 0] else ''undefined'')"
proof -
  have r: "js_rem a (int (length cs)) \<le> 0"
    using js_rem_neg_range [of a "int (length cs)"] assms by simp
  have z: "(js_rem a (int (length cs)) = 0) = (int (length cs) dvd a)"
    using js_rem_neg_zero [of a "int (length cs)"] assms by simp
  show ?thesis
  proof (cases "int (length cs) dvd a")
    case True
    with z have "js_rem a (int (length cs)) = 0" by simp
    with True assms show ?thesis by (simp add: index_str_def)
  next
    case False
    with z r have "js_rem a (int (length cs)) < 0" by linarith
    with False show ?thesis by (simp add: index_str_def)
  qed
qed

lemma base36_loop_neg:
  "n < 0 \<Longrightarrow> base36_loop n r = (if 36 dvd n then ''0'' else ''undefined'') @ r"
proof -
  assume n: "n < 0"
  then have "n div 36 < 0" by simp
  then have "base36_loop n r = index_str chars36 (js_rem n (int (length chars36))) @ r"
    by (subst base36_loop.simps) (simp add: length_chars36)
  also have "index_str chars36 (js_rem n (int (length chars36)))
             = (if int (length chars36) dvd n then [chars36 ! 0] else ''undefined'')"
    using n by (intro index_str_neg_rem) (simp_all add: length_chars36)
  finally show ?thesis by (simp add: length_chars36) (simp add: chars36_def)
qed

lemma base62_loop_neg:
  "n < 0 \<Longrightarrow> base62_loop n r = (if 62 dvd n then ''0'' else ''undefined'') @ r"
proof -
  assume n: "n < 0"
  then have "n div 62 < 0" by simp
  then have "base62_loop n r = index_str chars62 (js_rem n (int (length chars62))) @ r"
    by (subst base62_loop.simps) (simp add: length_chars62)
  also have "index_str chars62 (js_rem n (int (length chars62)))
             = (if int (length chars62) dvd n then [chars62 ! 0] else ''undefined'')"
    using n by (intro index_str_neg_rem) (simp_all add: length_chars62)
  finally show ?thesis by (simp add: length_chars62) (simp add: chars62_def)
qed

lemma base94_loop_neg:
  "n < 0 \<Longrightarrow> base94_loop n r = (if 90 dvd n then ''0'' else ''undefined'') @ r"
proof -
  assume n: "n < 0"
  then have "n div 90 < 0" by simp
  then have "base94_loop n r = index_str chars94 (js_rem n (int (length chars94))) @ r"
    by (subst base94_loop.simps) (simp add: length_chars94)
  also have "index_str chars94 (js_rem n (int (length chars94)))
             = (if int (length chars94) dvd n then [chars94 ! 0] else ''undefined'')"
    using n by (intro index_str_neg_rem) (simp_all add: length_chars94)
  finally show ?thesis by (simp add: length_chars94) (simp add: chars94_def)
qed

subsection \<open>Decoding a digit string\<close>

lemma char_index_nth:
  "distinct cs \<Longrightarrow> i < length cs \<Longrightarrow> char_index cs (cs ! i) = Some i"
proof (induction cs arbitrary: i)
  case Nil
  then show ?case by simp
next
  case (Cons x xs)
  then show ?case by (cases i) auto
qed

lemma decode_acc_digits:
  "distinct cs \<Longrightarrow> \<forall>d\<in>set ds. d < length cs \<Longrightarrow>
   decode_acc cs acc (map ((!) cs) ds)
     = Inr (foldl (\<lambda>a d. a * int (length cs) + int d) acc ds)"
  by (induction ds arbitrary: acc) (simp_all add: char_index_nth)

lemma foldl_int_digits:
  "foldl (\<lambda>a d. a * int b + int d) (int acc) ds = int (foldl (\<lambda>a d. a * b + d) acc ds)"
  by (induction ds arbitrary: acc) (simp_all flip: of_nat_mult of_nat_add)

lemma decodeDigits_digits_of:
  assumes "distinct cs" "2 \<le> length cs"
  shows "decodeDigits (map ((!) cs) (digits_of (length cs) n)) cs = Inr (int n)"
proof -
  have b: "\<forall>d\<in>set (digits_of (length cs) n). d < length cs"
    using assms(2) digits_of_bound by blast
  have "decode_acc cs 0 (map ((!) cs) (digits_of (length cs) n))
        = Inr (int (digits_val (length cs) (digits_of (length cs) n)))"
    using decode_acc_digits [OF assms(1) b, of 0] foldl_int_digits [of "length cs" 0]
    by (simp add: digits_val_def)
  then show ?thesis
    using assms(2) by (simp add: decodeDigits_def digits_of_nonempty digits_val_digits_of)
qed

lemma decodeBase36_roundtrip: "0 \<le> t \<Longrightarrow> decodeBase36 (compressMillisCustom t) = Inr t"
  using decodeDigits_digits_of [OF distinct_chars36, of "nat t"]
  by (simp add: decodeBase36_def compressMillisCustom_def base36_loop_nonneg length_chars36)

lemma decodeBase62_roundtrip: "0 \<le> t \<Longrightarrow> decodeBase62 (compressMillisBase62 t) = Inr t"
  using decodeDigits_digits_of [OF distinct_chars62, of "nat t"]
  by (simp add: decodeBase62_def compressMillisBase62_def base62_loop_nonneg length_chars62)

lemma decodeBase94_roundtrip: "0 \<le> t \<Longrightarrow> decodeBase94 (compressMillisBase94 t) = Inr t"
  using decodeDigits_digits_of [OF distinct_chars94, of "nat t"]
  by (simp add: decodeBase94_def compressMillisBase94_def base94_loop_nonneg length_chars94)

subsection \<open>The binary64 loops below 2^53\<close>

text \<open>
  Below 2^53 the binary64 loop and the exact loop are the same function: every quotient
  is exact there, and on a number that is not positive both run their body once.
\<close>

lemma base36_loop_f64_safe:
  "n < 2 ^ 53 \<Longrightarrow> base36_loop_f64 n r = base36_loop n r"
proof (induction n r rule: base36_loop_f64.induct)
  case (1 number result)
  define base where "base = int (length chars36)"
  define result' where "result' = index_str chars36 (js_rem number base) @ result"
  have base: "2 \<le> base"
    by (simp add: base_def chars36_def)
  have f: "base36_loop_f64 number result =
      (if 0 < Math_floor_div number base
       then base36_loop_f64 (Math_floor_div number base) result' else result')"
    by (subst base36_loop_f64.simps) (simp add: base_def result'_def Let_def)
  have e: "base36_loop number result =
      (if 0 < number div base then base36_loop (number div base) result' else result')"
    by (subst base36_loop.simps) (simp add: base_def result'_def Let_def)
  show ?case
  proof (cases "0 < number")
    case True
    have q: "Math_floor_div number base = number div base"
      using True "1.prems" base by (intro Math_floor_div_safe) simp_all
    show ?thesis
    proof (cases "0 < number div base")
      case pos: True
      have "number div base < number"
        using True base by (intro int_div_less_self) simp_all
      then have "number div base < 2 ^ 53"
        using "1.prems" by simp
      then have "base36_loop_f64 (number div base) result' = base36_loop (number div base) result'"
        using "1.IH" [OF base_def result'_def q [symmetric]] pos by simp
      then show ?thesis
        using f e q pos by simp
    next
      case False
      then show ?thesis
        using f e q by simp
    qed
  next
    case False
    then have "Math_floor_div number base \<le> 0"
      using base by (intro Math_floor_div_nonpos) simp_all
    moreover have "number div base \<le> 0"
      using False base by (simp add: div_nonpos_pos_le0)
    ultimately show ?thesis
      using f e by simp
  qed
qed

lemma base62_loop_f64_safe:
  "n < 2 ^ 53 \<Longrightarrow> base62_loop_f64 n r = base62_loop n r"
proof (induction n r rule: base62_loop_f64.induct)
  case (1 number result)
  define base where "base = int (length chars62)"
  define result' where "result' = index_str chars62 (js_rem number base) @ result"
  have base: "2 \<le> base"
    by (simp add: base_def chars62_def)
  have f: "base62_loop_f64 number result =
      (if 0 < Math_floor_div number base
       then base62_loop_f64 (Math_floor_div number base) result' else result')"
    by (subst base62_loop_f64.simps) (simp add: base_def result'_def Let_def)
  have e: "base62_loop number result =
      (if 0 < number div base then base62_loop (number div base) result' else result')"
    by (subst base62_loop.simps) (simp add: base_def result'_def Let_def)
  show ?case
  proof (cases "0 < number")
    case True
    have q: "Math_floor_div number base = number div base"
      using True "1.prems" base by (intro Math_floor_div_safe) simp_all
    show ?thesis
    proof (cases "0 < number div base")
      case pos: True
      have "number div base < number"
        using True base by (intro int_div_less_self) simp_all
      then have "number div base < 2 ^ 53"
        using "1.prems" by simp
      then have "base62_loop_f64 (number div base) result' = base62_loop (number div base) result'"
        using "1.IH" [OF base_def result'_def q [symmetric]] pos by simp
      then show ?thesis
        using f e q pos by simp
    next
      case False
      then show ?thesis
        using f e q by simp
    qed
  next
    case False
    then have "Math_floor_div number base \<le> 0"
      using base by (intro Math_floor_div_nonpos) simp_all
    moreover have "number div base \<le> 0"
      using False base by (simp add: div_nonpos_pos_le0)
    ultimately show ?thesis
      using f e by simp
  qed
qed

lemma base94_loop_f64_safe:
  "n < 2 ^ 53 \<Longrightarrow> base94_loop_f64 n r = base94_loop n r"
proof (induction n r rule: base94_loop_f64.induct)
  case (1 number result)
  define base where "base = int (length chars94)"
  define result' where "result' = index_str chars94 (js_rem number base) @ result"
  have base: "2 \<le> base"
    by (simp add: base_def chars94_def)
  have f: "base94_loop_f64 number result =
      (if 0 < Math_floor_div number base
       then base94_loop_f64 (Math_floor_div number base) result' else result')"
    by (subst base94_loop_f64.simps) (simp add: base_def result'_def Let_def)
  have e: "base94_loop number result =
      (if 0 < number div base then base94_loop (number div base) result' else result')"
    by (subst base94_loop.simps) (simp add: base_def result'_def Let_def)
  show ?case
  proof (cases "0 < number")
    case True
    have q: "Math_floor_div number base = number div base"
      using True "1.prems" base by (intro Math_floor_div_safe) simp_all
    show ?thesis
    proof (cases "0 < number div base")
      case pos: True
      have "number div base < number"
        using True base by (intro int_div_less_self) simp_all
      then have "number div base < 2 ^ 53"
        using "1.prems" by simp
      then have "base94_loop_f64 (number div base) result' = base94_loop (number div base) result'"
        using "1.IH" [OF base_def result'_def q [symmetric]] pos by simp
      then show ?thesis
        using f e q pos by simp
    next
      case False
      then show ?thesis
        using f e q by simp
    qed
  next
    case False
    then have "Math_floor_div number base \<le> 0"
      using base by (intro Math_floor_div_nonpos) simp_all
    moreover have "number div base \<le> 0"
      using False base by (simp add: div_nonpos_pos_le0)
    ultimately show ?thesis
      using f e by simp
  qed
qed

lemma compressMillisCustom_f64_safe:
  "n < 2 ^ 53 \<Longrightarrow> compressMillisCustom_f64 n = compressMillisCustom n"
  by (simp add: compressMillisCustom_f64_def compressMillisCustom_def base36_loop_f64_safe)

lemma compressMillisBase62_f64_safe:
  "n < 2 ^ 53 \<Longrightarrow> compressMillisBase62_f64 n = compressMillisBase62 n"
  by (simp add: compressMillisBase62_f64_def compressMillisBase62_def base62_loop_f64_safe)

lemma compressMillisBase94_f64_safe:
  "n < 2 ^ 53 \<Longrightarrow> compressMillisBase94_f64 n = compressMillisBase94 n"
  by (simp add: compressMillisBase94_f64_def compressMillisBase94_def base94_loop_f64_safe)

subsection \<open>Claims about the direct and reference-relative encoders\<close>

lemma base62_loop_chars: "0 \<le> n \<Longrightarrow> set (base62_loop n []) \<subseteq> set chars62"
proof
  fix c
  assume n: "0 \<le> n" and c: "c \<in> set (base62_loop n [])"
  then obtain d where d: "d \<in> set (digits_of 62 (nat n))" and cd: "c = chars62 ! d"
    by (auto simp: base62_loop_nonneg)
  from d have "d < 62" using digits_of_bound [of 62 d "nat n"] by simp
  with cd show "c \<in> set chars62" by (simp add: length_chars62)
qed

lemma chars62_no_sign:
  "CHR ''+'' \<notin> set chars62" "CHR ''-'' \<notin> set chars62" "CHR '':'' \<notin> set chars62"
  by (simp_all add: chars62_def)






lemma js_sub_abs_safe: "\<bar>a - b\<bar> \<le> 9007199254740991 \<Longrightarrow> js_sub a b = a - b"
  by (rule js_sub_safe) simp_all




text \<open>
  C5 (as the code behaves). For a negative timestamp each direct encoder returns a string
  and raises nothing: the loop body runs once, so the result is the character 0 when the
  timestamp is a multiple of the base, and the text undefined otherwise.
\<close>

theorem direct_encoders_negative:
  "ts < 0 \<Longrightarrow>
     compressMillisCustom ts = (if 36 dvd ts then ''0'' else ''undefined'') \<and>
     compressMillisBase62 ts = (if 62 dvd ts then ''0'' else ''undefined'') \<and>
     compressMillisBase94 ts = (if 90 dvd ts then ''0'' else ''undefined'')"
  by (simp add: compressMillisCustom_def compressMillisBase62_def compressMillisBase94_def
        base36_loop_neg base62_loop_neg base94_loop_neg)

theorem direct_encoders_negative_witness:
  "(-62::int) < 0 \<and>
   compressMillisCustom (-62) = ''undefined'' \<and>
   compressMillisBase62 (-62) = ''0'' \<and>
   compressMillisBase94 (-62) = ''undefined''"
  using direct_encoders_negative [of "-62"] by simp

theorem direct_encoders_negative_counterexample:
  "compressMillisBase62 (-1) = ''undefined''"
  by (simp add: compressMillisBase62_def base62_loop_neg)

text \<open>
  C4. The claim counts 94 characters in the alphabet of the Base94 encoder and calls its
  encoding base 94. The alphabet literal of the code holds 90 distinct characters, the
  printable ASCII characters other than the space, the double quote, the single quote, the
  backslash and the backtick, and the base of the positional encoding is the length of
  that literal, 90: on a non-negative number the encoder yields its base-90 digits, so 94
  is written with the digits 1 and 4.
\<close>

theorem chars94_alphabet:
  "length chars94 = 90 \<and> distinct chars94 \<and>
   set chars94 = set printable_nonspace - {CHR 0x22, CHR 0x27, CHR 0x5C, CHR 0x60} \<and>
   (0 \<le> n \<longrightarrow>
      compressMillisBase94 n = map ((!) chars94) (digits_of (length chars94) (nat n)))"
proof -
  have s: "set chars94 = set printable_nonspace - {CHR 0x22, CHR 0x27, CHR 0x5C, CHR 0x60}"
    by code_simp
  show ?thesis
    using s by (simp add: length_chars94 distinct_chars94 compressMillisBase94_def base94_loop_nonneg)
qed

theorem chars94_alphabet_witness:
  "(0::int) \<le> 94 \<and> compressMillisBase94 94 = ''14''"
proof -
  have d: "digits_of 90 94 = [1, 4]" by (simp add: digits_of_step digits_of_small)
  have "compressMillisBase94 94 = map ((!) chars94) (digits_of (length chars94) (nat 94))"
    using chars94_alphabet [of 94] by simp
  then have "compressMillisBase94 94 = map ((!) chars94) [1, 4]"
    by (simp only: length_chars94 d nat_numeral)
  then show ?thesis by (simp add: chars94_def)
qed

subsection \<open>The sequence encoder\<close>

lemma series_loop_from:
  "Suc k = i \<Longrightarrow> i \<le> length xs \<Longrightarrow>
   series_loop xs i (xs ! k) r = r @ concat (map2 deltaEntry (drop k xs) (drop i xs))"
proof (induction "length xs - i" arbitrary: i k r)
  case 0
  then have "i = length xs"
    by simp
  then show ?case
    by (subst series_loop.simps) simp
next
  case (Suc n)
  then have lt: "i < length xs" and k: "k < length xs"
    by simp_all
  have n: "n = length xs - Suc i"
    using Suc.hyps(2) by simp
  have "series_loop xs i (xs ! k) r = series_loop xs (Suc i) (xs ! i) (r @ deltaEntry (xs ! k) (xs ! i))"
    using lt
    by (subst series_loop.simps) (simp add: deltaEntry_def compressMillisBase62_f64_def Let_def)
  also have "\<dots> = (r @ deltaEntry (xs ! k) (xs ! i))
                 @ concat (map2 deltaEntry (drop i xs) (drop (Suc i) xs))"
    using Suc.hyps(1) [OF n refl] lt by simp
  also have "drop k xs = xs ! k # drop i xs"
    using k Suc.prems(1) Cons_nth_drop_Suc [of k xs] by simp
  moreover have "drop i xs = xs ! i # drop (Suc i) xs"
    using lt Cons_nth_drop_Suc [of i xs] by simp
  ultimately show ?case
    by simp
qed

lemma compressTimestampSeries_entries:
  "compressTimestampSeries (t # ts)
     = compressMillisBase62_f64 t @ concat (map2 deltaEntry (t # ts) ts)"
  using series_loop_from [of 0 1 "t # ts" "compressMillisBase62_f64 t"]
  by (simp add: compressTimestampSeries_def)






subsection \<open>The fixed-width binary encoder\<close>

lemma Buffer_alloc_6: "Buffer_alloc 6 = [0, 0, 0, 0, 0, 0]"
  by (simp add: Buffer_alloc_def numeral_eq_Suc)

lemma length_b64chars: "length b64chars = 64"
  by (simp add: b64chars_def)
lemma distinct_b64chars: "distinct b64chars"
  by (simp add: b64chars_def)

lemma b64chars_nth_mem: "i < 64 \<Longrightarrow> b64chars ! i \<in> set b64chars"
  using nth_mem [of i b64chars] by (simp only: length_b64chars)

lemma b64chars_no_underscore: "i < 64 \<Longrightarrow> b64chars ! i \<noteq> CHR ''_''"
proof -
  assume "i < 64"
  then have "b64chars ! i \<in> set b64chars" by (rule b64chars_nth_mem)
  moreover have "CHR ''_'' \<notin> set b64chars" by (simp add: b64chars_def)
  ultimately show ?thesis by metis
qed

lemma toString_base64_6:
  "toString_base64 [a, b, c, d, e, f] =
     [b64chars ! (a div 4), b64chars ! ((a mod 4) * 16 + b div 16),
      b64chars ! ((b mod 16) * 4 + c div 64), b64chars ! (c mod 64),
      b64chars ! (d div 4), b64chars ! ((d mod 4) * 16 + e div 16),
      b64chars ! ((e mod 16) * 4 + f div 64), b64chars ! (f mod 64)]"
  by simp


lemma bitpacked_packed:
  assumes "0 \<le> ts" "ts div 86400000 \<le> 65535"
  shows "compressMillisBitPacked ts =
     Inr (toString_base64
       [nat ((ts div 86400000 div 256) mod 256), nat (ts div 86400000 mod 256),
        nat ((ts mod 86400000 div 16777216) mod 256), nat ((ts mod 86400000 div 65536) mod 256),
        nat ((ts mod 86400000 div 256) mod 256), nat (ts mod 86400000 mod 256)])"
proof -
  have d: "0 \<le> ts div 86400000" using assms(1) by simp
  have m: "0 \<le> ts mod 86400000" "ts mod 86400000 < 86400000" by simp_all
  have w1: "writeUInt16BE (ts div 86400000) 0 (Buffer_alloc 6)
     = Inr [nat ((ts div 86400000 div 256) mod 256), nat (ts div 86400000 mod 256), 0, 0, 0, 0]"
    using d assms(2) by (simp add: writeUInt16BE_def Buffer_alloc_6)
  have m2: "\<not> ts mod 86400000 < 0" "\<not> 4294967295 < ts mod 86400000"
    using m by linarith+
  have w2: "writeUInt32BE (ts mod 86400000) 2 [x, y, 0, 0, 0, 0]
     = Inr [x, y, nat ((ts mod 86400000 div 16777216) mod 256), nat ((ts mod 86400000 div 65536) mod 256),
        nat ((ts mod 86400000 div 256) mod 256), nat (ts mod 86400000 mod 256)]" for x y
    by (simp add: writeUInt32BE_def numeral_eq_Suc m2 del: pos_mod_sign)
  show ?thesis
    using assms by (simp add: compressMillisBitPacked_def Let_def js_rem_nonneg w1 w2 del: toString_base64.simps)
qed





subsection \<open>Order of equally long encodings\<close>

lemma digits_val_shift:
  "foldl (\<lambda>acc d. acc * b + d) a ds = a * b ^ length ds + digits_val b ds"
proof (induction ds rule: rev_induct)
  case Nil
  then show ?case by (simp add: digits_val_def)
next
  case (snoc x xs)
  define F where "F = foldl (\<lambda>acc d. acc * b + d) a xs"
  define G where "G = digits_val b xs"
  have "F = a * b ^ length xs + G" using snoc.IH by (simp add: F_def G_def)
  then have "F * b + x = a * b ^ Suc (length xs) + (G * b + x)"
    by (simp add: algebra_simps)
  then show ?case by (simp add: F_def G_def digits_val_snoc)
qed

lemma digits_val_Cons:
  "digits_val b (d # ds) = d * b ^ length ds + digits_val b ds"
  using digits_val_shift [of b d ds] by (simp add: digits_val_def)

lemma digits_val_bound:
  "\<forall>d\<in>set ds. d < b \<Longrightarrow> digits_val b ds < b ^ length ds"
proof (induction ds)
  case Nil
  then show ?case by (simp add: digits_val_def)
next
  case (Cons d ds)
  then have d: "d < b" and r: "digits_val b ds < b ^ length ds" by simp_all
  from d have "Suc d \<le> b" by simp
  then have "Suc d * b ^ length ds \<le> b * b ^ length ds" by (rule mult_le_mono1)
  with r show ?case by (simp add: digits_val_Cons)
qed

lemma lex_le_digits:
  "length xs = length ys \<Longrightarrow> \<forall>d\<in>set xs. d < b \<Longrightarrow> \<forall>d\<in>set ys. d < b \<Longrightarrow>
   digits_val b xs \<le> digits_val b ys \<Longrightarrow> lex_le xs ys"
proof (induction xs ys rule: list_induct2)
  case Nil
  then show ?case by simp
next
  case (Cons x xs y ys)
  have bx: "digits_val b xs < b ^ length xs" and "digits_val b ys < b ^ length ys"
    using Cons.prems digits_val_bound by simp_all
  show ?case
  proof (cases "x < y")
    case True
    then show ?thesis by simp
  next
    case False
    have "\<not> y < x"
    proof
      assume "y < x"
      then have "Suc y * b ^ length ys \<le> x * b ^ length ys"
        by (intro mult_le_mono1) simp
      moreover have "digits_val b ys < b ^ length ys" by fact
      ultimately have "digits_val b (y # ys) < digits_val b (x # xs)"
        using Cons.hyps by (simp add: digits_val_Cons)
      with Cons.prems(3) show False by simp
    qed
    with False have eq: "x = y" by simp
    with Cons.prems(3) Cons.hyps have "digits_val b xs \<le> digits_val b ys"
      by (simp add: digits_val_Cons)
    with Cons.IH Cons.prems eq show ?thesis by simp
  qed
qed

lemma alphabet_rank_nth:
  "distinct cs \<Longrightarrow> i < length cs \<Longrightarrow> alphabet_rank cs (cs ! i) = i"
  by (simp add: alphabet_rank_def char_index_nth)

lemma map_rank_digits:
  "distinct cs \<Longrightarrow> \<forall>d\<in>set ds. d < length cs \<Longrightarrow>
   map (alphabet_rank cs) (map ((!) cs) ds) = ds"
  by (induction ds) (simp_all add: alphabet_rank_nth)

lemma compressMillisBase62_exact_monotone:
  assumes "0 \<le> a" "a \<le> b"
    and "length (compressMillisBase62 a) = length (compressMillisBase62 b)"
  shows "alphabet_le chars62 (compressMillisBase62 a) (compressMillisBase62 b)"
proof -
  let ?da = "digits_of 62 (nat a)" and ?db = "digits_of 62 (nat b)"
  have b0: "0 \<le> b" using assms by simp
  have ea: "compressMillisBase62 a = map ((!) chars62) ?da"
    and eb: "compressMillisBase62 b = map ((!) chars62) ?db"
    using assms(1) b0 by (simp_all add: compressMillisBase62_def base62_loop_nonneg)
  have ba: "\<forall>d\<in>set ?da. d < 62" and bb: "\<forall>d\<in>set ?db. d < 62"
    using digits_of_bound [of 62] by auto
  have len: "length ?da = length ?db" using assms(3) ea eb by simp
  have "digits_val 62 ?da \<le> digits_val 62 ?db"
    using assms(1,2) by (simp add: digits_val_digits_of)
  with len ba bb have "lex_le ?da ?db" by (rule lex_le_digits)
  moreover have "map (alphabet_rank chars62) (compressMillisBase62 a) = ?da"
    unfolding ea using ba by (intro map_rank_digits distinct_chars62) (simp add: length_chars62)
  moreover have "map (alphabet_rank chars62) (compressMillisBase62 b) = ?db"
    unfolding eb using bb by (intro map_rank_digits distinct_chars62) (simp add: length_chars62)
  ultimately show ?thesis by (simp add: alphabet_le_def)
qed

text \<open>
  C8 (as the code behaves). For non-negative integers a and b with a at most b and b at
  most 2^53 - 1 whose Base62 encodings have the same length, the encoding of a is
  lexicographically less than or equal to the encoding of b when characters are compared
  by their position in the alphabet. Above 2^53 the division in the loop rounds, and the
  order can be reversed.
\<close>

theorem compressMillisBase62_monotone:
  assumes "0 \<le> a" "a \<le> b" "b \<le> 9007199254740991"
    and "length (compressMillisBase62_f64 a) = length (compressMillisBase62_f64 b)"
  shows "alphabet_le chars62 (compressMillisBase62_f64 a) (compressMillisBase62_f64 b)"
proof -
  have a: "compressMillisBase62_f64 a = compressMillisBase62 a"
    using assms(2,3) by (intro compressMillisBase62_f64_safe) simp
  have b: "compressMillisBase62_f64 b = compressMillisBase62 b"
    using assms(3) by (intro compressMillisBase62_f64_safe) simp
  show ?thesis
    using assms(1,2,4) unfolding a b by (rule compressMillisBase62_exact_monotone)
qed

theorem compressMillisBase62_monotone_witness:
  "(0::int) \<le> 500000 \<and> (500000::int) \<le> 500001 \<and> (500001::int) \<le> 9007199254740991 \<and>
   compressMillisBase62_f64 500000 = ''264w'' \<and> compressMillisBase62_f64 500001 = ''264x'' \<and>
   alphabet_le chars62 (compressMillisBase62_f64 500000) (compressMillisBase62_f64 500001)"
proof -
  have e: "compressMillisBase62_f64 500000 = ''264w''" "compressMillisBase62_f64 500001 = ''264x''"
    by code_simp+
  then have l: "length (compressMillisBase62_f64 500000) = length (compressMillisBase62_f64 500001)"
    by simp
  have "alphabet_le chars62 (compressMillisBase62_f64 500000) (compressMillisBase62_f64 500001)"
    by (rule compressMillisBase62_monotone [OF _ _ _ l]) simp_all
  with e show ?thesis
    by simp
qed

theorem compressMillisBase62_monotone_counterexample:
  "(0::int) \<le> 34902897112121404 \<and> (34902897112121404::int) \<le> 34902897112121408 \<and>
   compressMillisBase62_f64 34902897112121404 = ''2zR34KlahY'' \<and>
   compressMillisBase62_f64 34902897112121408 = ''2zR34Klah2'' \<and>
   \<not> alphabet_le chars62 (compressMillisBase62_f64 34902897112121404)
         (compressMillisBase62_f64 34902897112121408)"
proof -
  have e: "compressMillisBase62_f64 34902897112121404 = ''2zR34KlahY''"
    "compressMillisBase62_f64 34902897112121408 = ''2zR34Klah2''"
    by code_simp+
  have "\<not> alphabet_le chars62 ''2zR34KlahY'' ''2zR34Klah2''"
    by code_simp
  with e show ?thesis
    by simp
qed

subsection \<open>The day/time split\<close>

lemma DayFromYear_less: "y < z \<Longrightarrow> DayFromYear y < DayFromYear z"
proof (induction z rule: int_gr_induct)
  case base
  show ?case
    using DayFromYear_step [of y] by simp
next
  case (step i)
  then show ?case
    using DayFromYear_step [of i] by simp
qed

lemma year_down_le: "DayFromYear (year_down y d) \<le> d"
proof (induction y d rule: year_down.induct)
  case (1 y d)
  then show ?case
    by (subst year_down.simps) simp
qed

lemma year_up_spec:
  "DayFromYear y \<le> d \<Longrightarrow>
   DayFromYear (year_up y d) \<le> d \<and> d < DayFromYear (year_up y d + 1)"
proof (induction y d rule: year_up.induct)
  case (1 y d)
  show ?case
  proof (cases "DayFromYear (y + 1) \<le> d")
    case True
    then show ?thesis
      using "1.IH" by (subst (1 2) year_up.simps) simp
  next
    case False
    then show ?thesis
      using "1.prems" by (subst (1 2) year_up.simps) simp
  qed
qed

lemma YearFromTime_spec:
  "DayFromYear (YearFromTime t) \<le> Day t \<and> Day t < DayFromYear (YearFromTime t + 1)"
  unfolding YearFromTime_def by (rule year_up_spec) (rule year_down_le)

lemma YearFromTime_ge: "DayFromYear y \<le> Day t \<Longrightarrow> y \<le> YearFromTime t"
proof (rule ccontr)
  assume a: "DayFromYear y \<le> Day t" and "\<not> y \<le> YearFromTime t"
  then have "YearFromTime t + 1 \<le> y"
    by simp
  then have "DayFromYear (YearFromTime t + 1) \<le> DayFromYear y"
    using DayFromYear_less [of "YearFromTime t + 1" y] by (cases "YearFromTime t + 1 = y") simp_all
  then show False
    using a YearFromTime_spec [of t] by simp
qed

lemma DayFromYear_100: "DayFromYear 100 = - 683003"
  by (simp add: DayFromYear_def)

lemma MonthFromTime_range: "0 \<le> MonthFromTime t \<and> MonthFromTime t \<le> 11"
  by (simp add: MonthFromTime_def Let_def)

lemma month_date:
  "monthStart (MonthFromTime t) (if InLeapYear (YearFromTime t) then 1 else 0)
     + DateFromTime t - 1 = DayWithinYear t"
proof -
  define m where "m = MonthFromTime t"
  define leap :: int where "leap = (if InLeapYear (YearFromTime t) then 1 else 0)"
  define d where "d = DayWithinYear t"
  have dt: "DateFromTime t =
      (if m = 0 then d + 1 else if m = 1 then d - 30
       else if m = 2 then d - 58 - leap else if m = 3 then d - 89 - leap
       else if m = 4 then d - 119 - leap else if m = 5 then d - 150 - leap
       else if m = 6 then d - 180 - leap else if m = 7 then d - 211 - leap
       else if m = 8 then d - 242 - leap else if m = 9 then d - 272 - leap
       else if m = 10 then d - 303 - leap else d - 333 - leap)"
    unfolding DateFromTime_def Let_def m_def leap_def d_def ..
  have "m = 0 \<or> m = 1 \<or> m = 2 \<or> m = 3 \<or> m = 4 \<or> m = 5 \<or> m = 6
    \<or> m = 7 \<or> m = 8 \<or> m = 9 \<or> m = 10 \<or> m = 11"
    unfolding m_def MonthFromTime_def Let_def by simp
  then have "monthStart m leap + DateFromTime t - 1 = d"
    by (elim disjE) (simp_all add: dt monthStart_def)
  then show ?thesis
    unfolding m_def leap_def d_def .
qed

lemma MakeDay_inverse: "MakeDay (YearFromTime t) (MonthFromTime t) (DateFromTime t) = Day t"
proof -
  have m: "MonthFromTime t div 12 = 0" "MonthFromTime t mod 12 = MonthFromTime t"
    using MonthFromTime_range [of t] by simp_all
  have "MakeDay (YearFromTime t) (MonthFromTime t) (DateFromTime t)
      = DayFromYear (YearFromTime t)
        + (monthStart (MonthFromTime t) (if InLeapYear (YearFromTime t) then 1 else 0)
           + DateFromTime t - 1)"
    by (simp add: MakeDay_def Let_def m)
  also have "\<dots> = Day t"
    by (simp only: month_date) (simp add: DayWithinYear_def)
  finally show ?thesis .
qed

text \<open>
  The local midnight that \<^verbatim>\<open>millisecondsToDaysAndTime\<close> builds, for a local year outside
  0 to 99: the start of the local day, read back with the zone's offset at that local time.
\<close>

lemma Date_ymd_midnight:
  assumes "\<not> (0 \<le> getFullYear tza t \<and> getFullYear tza t \<le> 99)"
  shows "Date_ymd tza (getFullYear tza t) (getMonth tza t) (getDate tza t)
           = TimeClip (Day (LocalTime tza t) * 86400000
                       - tza (Day (LocalTime tza t) * 86400000) False)"
proof -
  define y where "y = getFullYear tza t"
  have "\<not> (0 \<le> y \<and> y \<le> 99)"
    using assms by (simp add: y_def)
  then have "(if 0 \<le> y \<and> y \<le> 99 then 1900 + y else y) = y"
    by (rule if_not_P)
  then have "Date_ymd tza y (getMonth tza t) (getDate tza t)
      = TimeClip (MakeDay y (getMonth tza t) (getDate tza t) * 86400000
                  - tza (MakeDay y (getMonth tza t) (getDate tza t) * 86400000) False)"
    by (simp add: Date_ymd_def Let_def)
  moreover have "MakeDay y (getMonth tza t) (getDate tza t) = Day (LocalTime tza t)"
    unfolding y_def getFullYear_def getMonth_def getDate_def by (rule MakeDay_inverse)
  ultimately show ?thesis
    unfolding y_def by simp
qed

lemma days_exact:
  assumes "\<bar>ts\<bar> \<le> 8640000000000000"
  shows "Math_floor_div (js_sub ts 0) (24 * 60 * 60 * 1000) = ts div 86400000"
proof -
  have "js_sub ts 0 = ts"
    using assms by (intro js_sub_safe [of ts 0, simplified]) simp_all
  moreover have "Math_floor_div ts 86400000 = ts div 86400000"
    using assms by (intro Math_floor_div_safe) simp_all
  ultimately show ?thesis
    by simp
qed

lemma daysSinceEpoch_exact:
  assumes "\<bar>ts\<bar> \<le> 8640000000000000"
  shows "daysSinceEpoch (millisecondsToDaysAndTime tza ts) = Some (ts div 86400000)"
proof -
  have clip: "TimeClip ts = Some ts" "TimeClip 0 = Some 0"
    using assms by (simp_all add: TimeClip_def)
  show ?thesis
    using days_exact [OF assms] by (simp add: millisecondsToDaysAndTime_def clip)
qed

lemma millisSinceMidnight_local:
  assumes r: "\<bar>ts\<bar> \<le> 8640000000000000"
    and y: "\<not> (0 \<le> getFullYear tza ts \<and> getFullYear tza ts \<le> 99)"
    and lo: "- 8640000000000000 + 86400000 \<le> ts"
    and z: "tza (Day (LocalTime tza ts) * 86400000) False = tza ts True"
  shows "millisSinceMidnight (millisecondsToDaysAndTime tza ts)
           = Some ((ts + tza ts True) mod 86400000)"
proof -
  have clip: "TimeClip ts = Some ts"
    using r by (simp add: TimeClip_def)
  define L where "L = ts + tza ts True"
  define M where "M = L div 86400000 * 86400000 - tza ts True"
  have md: "0 \<le> L mod 86400000" "L mod 86400000 < 86400000"
    by simp_all
  have M: "M = ts - L mod 86400000"
    unfolding M_def L_def by (simp add: algebra_simps minus_mod_eq_mult_div [symmetric])
  have "\<bar>M\<bar> \<le> 8640000000000000"
    using r lo md unfolding M by linarith
  then have mc: "TimeClip M = Some M"
    by (simp add: TimeClip_def)
  have "Date_ymd tza (getFullYear tza ts) (getMonth tza ts) (getDate tza ts) = TimeClip M"
    unfolding Date_ymd_midnight [OF y] z
    by (simp add: M_def L_def LocalTime_def Day_def)
  then have "millisSinceMidnight (millisecondsToDaysAndTime tza ts) = Some (js_sub ts M)"
    by (simp add: millisecondsToDaysAndTime_def clip mc)
  moreover have "js_sub ts M = ts - M"
    using md unfolding M by (intro js_sub_safe) simp_all
  ultimately show ?thesis
    unfolding M L_def by simp
qed

text \<open>
  C9 (as the code behaves). For a timestamp within the range of a \<^verbatim>\<open>Date\<close>, at most 8.64e15
  milliseconds to either side of the epoch, the number of days is the floor of the
  timestamp divided by 86400000: it is non-negative exactly when the timestamp is, and
  negative before the epoch. The milliseconds since midnight are the milliseconds of the
  local day and lie in the interval from 0 up to, but not including, 86400000, provided
  that the local year is not one of the years 0 to 99, that the timestamp is at least one
  day above the smallest \<^verbatim>\<open>Date\<close>, and that the zone's offset from UTC at the start of
  the local day is its offset at the timestamp, as in every zone with a fixed offset.
\<close>

theorem millisecondsToDaysAndTime_ranges:
  "\<bar>ts\<bar> \<le> 8640000000000000 \<Longrightarrow>
     daysSinceEpoch (millisecondsToDaysAndTime tza ts) = Some (ts div 86400000) \<and>
     (0 \<le> ts div 86400000) = (0 \<le> ts) \<and>
     (\<not> (0 \<le> getFullYear tza ts \<and> getFullYear tza ts \<le> 99) \<and>
      - 8640000000000000 + 86400000 \<le> ts \<and>
      tza (Day (LocalTime tza ts) * 86400000) False = tza ts True \<longrightarrow>
        millisSinceMidnight (millisecondsToDaysAndTime tza ts)
          = Some ((ts + tza ts True) mod 86400000) \<and>
        0 \<le> (ts + tza ts True) mod 86400000 \<and>
        (ts + tza ts True) mod 86400000 < 86400000)"
proof -
  assume r: "\<bar>ts\<bar> \<le> 8640000000000000"
  have b: "(0 \<le> ts div 86400000) = (0 \<le> ts)"
    by (simp add: pos_imp_zdiv_nonneg_iff)
  show ?thesis
    using daysSinceEpoch_exact [OF r, of tza] millisSinceMidnight_local [OF r, of tza] b
    by simp
qed

theorem millisecondsToDaysAndTime_ranges_witness:
  "daysSinceEpoch (millisecondsToDaysAndTime (fixedZone 7200000) 1757546400123) = Some 20341 \<and>
   millisSinceMidnight (millisecondsToDaysAndTime (fixedZone 7200000) 1757546400123)
     = Some 4800123 \<and>
   daysSinceEpoch (millisecondsToDaysAndTime (fixedZone 0) (- 1)) = Some (- 1) \<and>
   millisSinceMidnight (millisecondsToDaysAndTime (fixedZone 0) (- 1)) = Some 86399999"
proof -
  have y: "getFullYear (fixedZone 7200000) 1757546400123 = 2025"
    "getFullYear (fixedZone 0) (- 1) = 1969"
    by code_simp+
  have z: "fixedZone off (Day (LocalTime (fixedZone off) ts) * 86400000) False
             = fixedZone off ts True" for off ts
    by (simp add: fixedZone_def)
  have v: "fixedZone off ts True = off" for off ts
    by (simp add: fixedZone_def)
  have "daysSinceEpoch (millisecondsToDaysAndTime (fixedZone 7200000) 1757546400123)
          = Some 20341 \<and>
        millisSinceMidnight (millisecondsToDaysAndTime (fixedZone 7200000) 1757546400123)
          = Some 4800123"
    using millisecondsToDaysAndTime_ranges [of 1757546400123 "fixedZone 7200000"] y z v
    by simp
  moreover have "daysSinceEpoch (millisecondsToDaysAndTime (fixedZone 0) (- 1)) = Some (- 1) \<and>
        millisSinceMidnight (millisecondsToDaysAndTime (fixedZone 0) (- 1)) = Some 86399999"
    using millisecondsToDaysAndTime_ranges [of "- 1" "fixedZone 0"] y z v
    by simp
  ultimately show ?thesis
    by simp
qed

theorem millisecondsToDaysAndTime_ranges_counterexample:
  "daysSinceEpoch (millisecondsToDaysAndTime (fixedZone 0) (- 1)) = Some (- 1) \<and>
   millisSinceMidnight (millisecondsToDaysAndTime (fixedZone 0) (- 60589252800000))
     = Some (- 59958100800000) \<and>
   getFullYear (fixedZone 0) (- 60589252800000) = 50 \<and>
   millisSinceMidnight (millisecondsToDaysAndTime (fixedZone 3600000) (- 8640000000000000))
     = None \<and>
   millisSinceMidnight
       (millisecondsToDaysAndTime (changingZone 1635642000000 3600000 0) 1635723000000)
     = Some 88200000 \<and>
   daysSinceEpoch (millisecondsToDaysAndTime (fixedZone 0) 8640000000000001) = None \<and>
   millisSinceMidnight (millisecondsToDaysAndTime (fixedZone 0) 8640000000000001) = None"
proof -
  have a: "daysSinceEpoch (millisecondsToDaysAndTime (fixedZone 0) (- 1)) = Some (- 1)"
    by code_simp
  have b: "millisSinceMidnight (millisecondsToDaysAndTime (fixedZone 0) (- 60589252800000))
     = Some (- 59958100800000)"
    by code_simp
  have c: "getFullYear (fixedZone 0) (- 60589252800000) = 50"
    by code_simp
  have d: "millisSinceMidnight (millisecondsToDaysAndTime (fixedZone 3600000) (- 8640000000000000))
     = None"
    by code_simp
  have e: "millisSinceMidnight
       (millisecondsToDaysAndTime (changingZone 1635642000000 3600000 0) 1635723000000)
     = Some 88200000"
    by code_simp
  have f: "daysSinceEpoch (millisecondsToDaysAndTime (fixedZone 0) 8640000000000001) = None"
    "millisSinceMidnight (millisecondsToDaysAndTime (fixedZone 0) 8640000000000001) = None"
    by code_simp+
  from a b c d e f show ?thesis
    by simp
qed

subsection \<open>Decoding what the encoders produce\<close>

lemma decodeDigits_base62_loop:
  "0 \<le> n \<Longrightarrow> decodeDigits (base62_loop n []) chars62 = Inr n"
  using decodeBase62_roundtrip [of n] by (simp add: decodeBase62_def compressMillisBase62_def)

lemma decodeVariable_roundtrip:
  assumes "\<bar>t - (case ref of None \<Rightarrow> 1577836800000 | Some r \<Rightarrow> r)\<bar> \<le> 9007199254740991"
  shows "decodeVariable (compressMillisVariable t ref) ref = Inr t"
proof -
  define r where "r = (case ref of None \<Rightarrow> 1577836800000 | Some r \<Rightarrow> r)"
  define m where "m = \<bar>t - r\<bar>"
  define run where "run = base62_loop m []"
  have m: "0 \<le> m" "m \<le> 9007199254740991"
    using assms by (simp_all add: m_def r_def)
  have s: "js_sub t r = t - r"
    using m(2) unfolding m_def by (rule js_sub_abs_safe)
  have l: "base62_loop_f64 m [] = run"
    unfolding run_def using m(2) by (intro base62_loop_f64_safe) simp
  have d: "decodeDigits run chars62 = Inr m"
    unfolding run_def using m(1) by (rule decodeDigits_base62_loop)
  have enc: "compressMillisVariable t ref = (if 0 \<le> t - r then CHR ''+'' else CHR ''-'') # run"
    by (simp add: compressMillisVariable_def Let_def r_def [symmetric] s m_def [symmetric] l)
  show ?thesis
  proof (cases "0 \<le> t - r")
    case True
    then have "compressMillisVariable t ref = CHR ''+'' # run"
      using enc by simp
    then have "decodeVariable (compressMillisVariable t ref) ref = Inr (r + m)"
      by (simp add: decodeVariable_def Let_def r_def [symmetric] d)
    then show ?thesis
      using True by (simp add: m_def)
  next
    case False
    then have "compressMillisVariable t ref = CHR ''-'' # run"
      using enc by simp
    then have "decodeVariable (compressMillisVariable t ref) ref = Inr (r - m)"
      by (simp add: decodeVariable_def Let_def r_def [symmetric] d)
    then show ?thesis
      using False by (simp add: m_def)
  qed
qed

lemma base62_loop_no_colon: "0 \<le> n \<Longrightarrow> CHR '':'' \<notin> set (base62_loop n [])"
  using base62_loop_chars [of n] chars62_no_sign(3) by blast

lemma base62_loop_no_sign: "0 \<le> n \<Longrightarrow> c \<in> set (base62_loop n []) \<Longrightarrow> \<not> isSign c"
  using base62_loop_chars [of n] chars62_no_sign(1,2) by (auto simp: isSign_def)

lemma getFullYear_fixedZone:
  assumes "0 \<le> t" "- 86400000 \<le> off"
  shows "100 \<le> getFullYear (fixedZone off) t"
proof -
  have "(- 86400000) div 86400000 \<le> (t + off) div (86400000 :: int)"
    using assms by (intro zdiv_mono1) simp_all
  then have "DayFromYear 100 \<le> Day (LocalTime (fixedZone off) t)"
    by (simp add: DayFromYear_100 Day_def LocalTime_def fixedZone_def)
  then show ?thesis
    unfolding getFullYear_def by (rule YearFromTime_ge)
qed

lemma compressSplitDaysTime_fixedZone:
  assumes "0 \<le> t" "t \<le> 8640000000000000" "\<bar>off\<bar> \<le> 86400000"
  shows "compressSplitDaysTime (fixedZone off) t
           = base62_loop (t div 86400000) [] @ CHR '':'' # base62_loop ((t + off) mod 86400000) []"
proof -
  define D where "D = t div 86400000"
  define M where "M = (t + off) mod 86400000"
  have r: "\<bar>t\<bar> \<le> 8640000000000000"
    using assms(1,2) by simp
  have "- 86400000 \<le> off"
    using assms(3) by simp
  then have "100 \<le> getFullYear (fixedZone off) t"
    using assms(1) by (intro getFullYear_fixedZone)
  then have y: "\<not> (0 \<le> getFullYear (fixedZone off) t \<and> getFullYear (fixedZone off) t \<le> 99)"
    by simp
  have days: "daysSinceEpoch (millisecondsToDaysAndTime (fixedZone off) t) = Some D"
    unfolding D_def using r by (rule daysSinceEpoch_exact)
  have "millisSinceMidnight (millisecondsToDaysAndTime (fixedZone off) t)
          = Some ((t + fixedZone off t True) mod 86400000)"
    using r y assms(1) by (intro millisSinceMidnight_local) (simp_all add: fixedZone_def)
  then have ms: "millisSinceMidnight (millisecondsToDaysAndTime (fixedZone off) t) = Some M"
    by (simp add: M_def fixedZone_def)
  have D: "base62_loop_f64 D [] = base62_loop D []"
  proof (rule base62_loop_f64_safe)
    have "D \<le> 8640000000000000 div 86400000"
      unfolding D_def using assms(2) by (intro zdiv_mono1) simp_all
    then show "D < 2 ^ 53"
      by simp
  qed
  have M: "base62_loop_f64 M [] = base62_loop M []"
  proof (rule base62_loop_f64_safe)
    have "M < 86400000"
      by (simp add: M_def)
    then show "M < 2 ^ 53"
      by simp
  qed
  show ?thesis
    by (simp add: compressSplitDaysTime_def Let_def days ms base62_loop_nan_def D M
          D_def [symmetric] M_def [symmetric])
qed

lemma decodeSplitDaysTime_roundtrip:
  assumes "0 \<le> t" "t \<le> 8640000000000000" "\<bar>off\<bar> \<le> 86400000"
  shows "decodeSplitDaysTime off (compressSplitDaysTime (fixedZone off) t) = Inr t"
proof -
  define D where "D = t div 86400000"
  define M where "M = (t + off) mod 86400000"
  have D: "0 \<le> D" using assms by (simp add: D_def)
  have M: "0 \<le> M" by (simp add: M_def)
  have enc: "compressSplitDaysTime (fixedZone off) t
             = base62_loop D [] @ CHR '':'' # base62_loop M []"
    unfolding D_def M_def using assms by (rule compressSplitDaysTime_fixedZone)
  have tw: "takeWhile (\<lambda>c. c \<noteq> CHR '':'') (base62_loop D [] @ CHR '':'' # base62_loop M [])
            = base62_loop D []"
    using base62_loop_no_colon [OF D] by (intro takeWhile_tail [THEN trans]) auto
  have dw: "dropWhile (\<lambda>c. c \<noteq> CHR '':'') (base62_loop D [] @ CHR '':'' # base62_loop M [])
            = CHR '':'' # base62_loop M []"
    using base62_loop_no_colon [OF D] by (intro dropWhile_append3 [THEN trans]) auto
  have dd: "decodeDigits (base62_loop D []) chars62 = Inr D"
    and dm: "decodeDigits (base62_loop M []) chars62 = Inr M"
    using D M by (simp_all add: decodeDigits_base62_loop)
  have "(M - off) mod 86400000 = t mod 86400000"
    unfolding M_def by (simp add: mod_diff_left_eq)
  then have "D * 86400000 + (M - off) mod 86400000 = t"
    by (simp add: D_def)
  then show ?thesis
    by (simp add: decodeSplitDaysTime_def Let_def enc tw dw dd dm)
qed

lemma b64_index: "i < 64 \<Longrightarrow> char_index b64chars (b64chars ! i) = Some i"
  by (rule char_index_nth [OF distinct_b64chars]) (simp add: length_b64chars)

lemma b64chars_no_pad: "i < 64 \<Longrightarrow> b64chars ! i \<noteq> CHR ''=''"
proof -
  assume "i < 64"
  then have "b64chars ! i \<in> set b64chars" by (rule b64chars_nth_mem)
  moreover have "CHR ''='' \<notin> set b64chars" by (simp add: b64chars_def)
  ultimately show ?thesis by metis
qed

lemma sextet_bounds:
  fixes a b c :: nat
  assumes "a < 256" "b < 256" "c < 256"
  shows "a div 4 < 64" "(a mod 4) * 16 + b div 16 < 64" "(b mod 16) * 4 + c div 64 < 64"
    "c mod 64 < 64"
  using assms by arith+

lemma sextet_byte1:
  fixes a b :: nat
  assumes "b < 256"
  shows "(a div 4) * 4 + ((a mod 4) * 16 + b div 16) div 16 = a"
proof -
  have "b div 16 < 16" using assms by arith
  then have "((a mod 4) * 16 + b div 16) div 16 = a mod 4" by simp
  then show ?thesis by simp
qed

lemma sextet_byte2:
  fixes a b c :: nat
  assumes "b < 256" "c < 256"
  shows "(((a mod 4) * 16 + b div 16) mod 16) * 16 + ((b mod 16) * 4 + c div 64) div 4 = b"
proof -
  have "b div 16 < 16" using assms by arith
  then have 1: "((a mod 4) * 16 + b div 16) mod 16 = b div 16" by simp
  have "c div 64 < 4" using assms by arith
  then have 2: "((b mod 16) * 4 + c div 64) div 4 = b mod 16" by simp
  show ?thesis unfolding 1 2 by simp
qed

lemma sextet_byte3:
  fixes b c :: nat
  assumes "c < 256"
  shows "(((b mod 16) * 4 + c div 64) mod 4) * 64 + c mod 64 = c"
proof -
  have "c div 64 < 4" using assms by arith
  then have 1: "((b mod 16) * 4 + c div 64) mod 4 = c div 64" by simp
  show ?thesis unfolding 1 by simp
qed

lemma base64_decode_sextets:
  assumes "x < 64" "y < 64" "z < 64" "w < 64"
  shows "base64_decode (b64chars ! x # b64chars ! y # b64chars ! z # b64chars ! w # rest)
         = (case base64_decode rest of
              Inl e \<Rightarrow> Inl e
            | Inr bytes \<Rightarrow>
                Inr ([x * 4 + y div 16, (y mod 16) * 16 + z div 4, (z mod 4) * 64 + w] @ bytes))"
  using assms by (simp add: b64_index b64chars_no_pad)

lemma base64_decode_group:
  assumes "a < 256" "b < 256" "c < 256"
  shows "base64_decode (b64chars ! (a div 4) # b64chars ! ((a mod 4) * 16 + b div 16)
           # b64chars ! ((b mod 16) * 4 + c div 64) # b64chars ! (c mod 64) # rest)
         = (case base64_decode rest of Inl e \<Rightarrow> Inl e | Inr bytes \<Rightarrow> Inr ([a, b, c] @ bytes))"
  by (simp only: base64_decode_sextets [OF sextet_bounds [OF assms]]
        sextet_byte1 [OF assms(2)] sextet_byte2 [OF assms(2,3)] sextet_byte3 [OF assms(3)])

lemma base64_decode_6:
  assumes "a < 256" "b < 256" "c < 256" "d < 256" "e < 256" "f < 256"
  shows "base64_decode (toString_base64 [a, b, c, d, e, f]) = Inr [a, b, c, d, e, f]"
proof -
  have "base64_decode [] = Inr []" by simp
  then show ?thesis
    by (simp only: toString_base64_6 base64_decode_group [OF assms(1,2,3)]
          base64_decode_group [OF assms(4,5,6)] sum.case append.simps)
qed


lemma decodeBitPacked_bytes:
  assumes "b0 < 256" "b1 < 256" "b2 < 256" "b3 < 256" "b4 < 256" "b5 < 256"
  shows "decodeBitPacked (toString_base64 [b0, b1, b2, b3, b4, b5])
         = Inr (int (b0 * 256 + b1) * 86400000
                + int (((b2 * 256 + b3) * 256 + b4) * 256 + b5))"
proof -
  have "(b0 mod 4) * 16 + b1 div 16 < 64"
    using sextet_bounds(2) [OF assms(1,2,3)] .
  then have "b64chars ! ((b0 mod 4) * 16 + b1 div 16) \<noteq> CHR ''_''"
    by (rule b64chars_no_underscore)
  then have nomark: "take 2 (toString_base64 [b0, b1, b2, b3, b4, b5]) \<noteq> ''F_''"
    by (simp only: toString_base64_6) simp
  have dec: "base64_decode (toString_base64 [b0, b1, b2, b3, b4, b5])
             = Inr [b0, b1, b2, b3, b4, b5]"
    using assms by (rule base64_decode_6)
  show ?thesis
    unfolding decodeBitPacked_def using nomark
    by (simp only: dec if_False sum.case) (simp add: Let_def)
qed

lemma int_bytes_16:
  assumes "0 \<le> d" "d < 65536"
  shows "int (nat ((d div 256) mod 256) * 256 + nat (d mod 256)) = d"
proof -
  have lt: "d div 256 < 256" using assms by simp
  have ge: "0 \<le> d div 256" using assms by simp
  from lt ge have "(d div 256) mod 256 = d div 256" by simp
  moreover have "int (nat (d div 256) * 256 + nat (d mod 256)) = d div 256 * 256 + d mod 256"
    using ge by simp
  ultimately show ?thesis by simp
qed

lemma int_bytes_32:
  assumes "0 \<le> m" "m < 4294967296"
  shows "int (((nat ((m div 16777216) mod 256) * 256 + nat ((m div 65536) mod 256)) * 256
               + nat ((m div 256) mod 256)) * 256 + nat (m mod 256)) = m"
proof -
  define q1 where "q1 = m div 256"
  define q2 where "q2 = q1 div 256"
  define q3 where "q3 = q2 div 256"
  have e2: "m div 65536 = q2"
    using zdiv_zmult2_eq [of 256 m 256] by (simp add: q1_def q2_def)
  have e3: "m div 16777216 = q3"
    using zdiv_zmult2_eq [of 256 m 65536] e2 by (simp add: q3_def)
  have q3: "0 \<le> q3" "q3 < 256"
    using assms e3 [symmetric] by simp_all
  then have q3m: "q3 mod 256 = q3" by simp
  have s1: "m = q1 * 256 + m mod 256" by (simp add: q1_def)
  have s2: "q1 = q2 * 256 + q1 mod 256" by (simp add: q2_def)
  have s3: "q2 = q3 * 256 + q2 mod 256" by (simp add: q3_def)
  have "((q3 * 256 + q2 mod 256) * 256 + q1 mod 256) * 256 + m mod 256 = m"
    using s1 s2 s3 by simp
  moreover have "int (((nat (q3 mod 256) * 256 + nat (q2 mod 256)) * 256
               + nat (q1 mod 256)) * 256 + nat (m mod 256))
      = ((q3 * 256 + q2 mod 256) * 256 + q1 mod 256) * 256 + m mod 256"
    using q3 by (simp add: q3m)
  ultimately show ?thesis
    by (simp only: e2 e3 q1_def [symmetric])
qed

lemma decodeBitPacked_roundtrip:
  assumes "0 \<le> t"
  shows "\<exists>s. compressMillisBitPacked t = Inr s \<and> decodeBitPacked s = Inr t"
proof (cases "65535 < t div 86400000")
  case True
  then have "compressMillisBitPacked t = Inr (''F_'' @ compressMillisBase62 t)"
    by (simp add: compressMillisBitPacked_def)
  moreover have "decodeBitPacked (''F_'' @ compressMillisBase62 t) = Inr t"
    using assms by (simp add: decodeBitPacked_def decodeBase62_roundtrip)
  ultimately show ?thesis by blast
next
  case False
  define dd where "dd = t div 86400000"
  define mm where "mm = t mod 86400000"
  have dd: "0 \<le> dd" "dd < 65536" and mm: "0 \<le> mm" "mm < 4294967296"
    using assms False by (simp_all add: dd_def mm_def)
  have t: "dd * 86400000 + mm = t" by (simp add: dd_def mm_def)
  let ?bs = "[nat ((dd div 256) mod 256), nat (dd mod 256),
        nat ((mm div 16777216) mod 256), nat ((mm div 65536) mod 256),
        nat ((mm div 256) mod 256), nat (mm mod 256)]"
  have enc: "compressMillisBitPacked t = Inr (toString_base64 ?bs)"
    unfolding dd_def mm_def using assms False by (intro bitpacked_packed) simp_all
  have "decodeBitPacked (toString_base64 ?bs)
         = Inr (int (nat ((dd div 256) mod 256) * 256 + nat (dd mod 256)) * 86400000
                + int (((nat ((mm div 16777216) mod 256) * 256 + nat ((mm div 65536) mod 256)) * 256
               + nat ((mm div 256) mod 256)) * 256 + nat (mm mod 256)))"
    by (rule decodeBitPacked_bytes) (simp_all add: nat_less_iff)
  then have "decodeBitPacked (toString_base64 ?bs) = Inr t"
    by (simp only: int_bytes_16 [OF dd] int_bytes_32 [OF mm] t)
  with enc show ?thesis by blast
qed

lemma compressMillisBitPacked_f64_safe:
  assumes "- (2 ^ 53) < ts" "ts < 2 ^ 53"
  shows "compressMillisBitPacked_f64 ts = compressMillisBitPacked ts"
proof -
  have "Math_floor_div ts 86400000 = ts div 86400000"
    using assms by (intro Math_floor_div_safe) simp_all
  moreover have "compressMillisBase62_f64 ts = compressMillisBase62 ts"
    using assms(2) by (rule compressMillisBase62_f64_safe)
  ultimately show ?thesis
    by (simp add: compressMillisBitPacked_f64_def compressMillisBitPacked_def Let_def)
qed

lemma deltaEntry_exact:
  assumes "\<bar>c - p\<bar> \<le> 9007199254740991"
  shows "deltaEntry p c
           = (if c - p \<ge> 0 then CHR ''+'' else CHR ''-'') # compressMillisBase62 \<bar>c - p\<bar>"
proof -
  have "compressMillisBase62_f64 \<bar>c - p\<bar> = compressMillisBase62 \<bar>c - p\<bar>"
    using assms by (intro compressMillisBase62_f64_safe) simp
  then show ?thesis
    using assms by (simp add: deltaEntry_def js_sub_abs_safe)
qed

lemma deltaEntry_shape:
  assumes "\<bar>c - p\<bar> \<le> 9007199254740991"
  shows "\<exists>s run. deltaEntry p c = s # run \<and> isSign s \<and> (\<forall>x\<in>set run. \<not> isSign x)"
proof -
  have "isSign (if c - p \<ge> 0 then CHR ''+'' else CHR ''-'')"
    by (simp add: isSign_def)
  moreover have "\<forall>x\<in>set (compressMillisBase62 \<bar>c - p\<bar>). \<not> isSign x"
    using base62_loop_no_sign [of "\<bar>c - p\<bar>"] by (simp add: compressMillisBase62_def)
  ultimately show ?thesis
    unfolding deltaEntry_exact [OF assms] by blast
qed

lemma decodeDeltas_deltaEntry:
  assumes "\<bar>c - p\<bar> \<le> 9007199254740991"
  shows "decodeDeltas p (deltaEntry p c # es)
     = (case decodeDeltas c es of Inl e \<Rightarrow> Inl e | Inr later \<Rightarrow> Inr (c # later))"
proof -
  have d: "0 \<le> n \<Longrightarrow> decodeDigits (compressMillisBase62 n) chars62 = Inr n" for n
    using decodeBase62_roundtrip [of n] by (simp add: decodeBase62_def)
  have d1: "p \<le> c \<Longrightarrow> decodeDigits (compressMillisBase62 (c - p)) chars62 = Inr (c - p)"
    by (rule d) simp
  have d2: "\<not> p \<le> c \<Longrightarrow> decodeDigits (compressMillisBase62 (p - c)) chars62 = Inr (p - c)"
    by (rule d) simp
  show ?thesis
    unfolding deltaEntry_exact [OF assms]
    by (cases "0 \<le> c - p") (simp_all add: d1 d2 Let_def)
qed

lemma splitEntries_nonempty: "splitEntries s \<noteq> []"
  by (induction s) (auto split: list.splits)

lemma splitEntries_run:
  "\<forall>c\<in>set run. \<not> isSign c \<Longrightarrow>
   splitEntries (run @ rest) = (run @ hd (splitEntries rest)) # tl (splitEntries rest)"
proof (induction run)
  case Nil
  then show ?case using splitEntries_nonempty [of rest] by simp
next
  case (Cons c run)
  then show ?case by simp
qed

lemma splitEntries_entries:
  "\<forall>e\<in>set es. \<exists>s run. e = s # run \<and> isSign s \<and> (\<forall>c\<in>set run. \<not> isSign c) \<Longrightarrow>
   splitEntries (concat es) = [] # es"
proof (induction es)
  case Nil
  then show ?case by simp
next
  case (Cons e es)
  then obtain s run where e: "e = s # run" and s: "isSign s" and run: "\<forall>c\<in>set run. \<not> isSign c"
    by auto
  have "splitEntries (run @ concat es) = run # es"
    using splitEntries_run [OF run, of "concat es"] Cons by simp
  then show ?case using e s by simp
qed

lemma compressMillisBase62_nonempty: "compressMillisBase62 n \<noteq> []"
proof (cases "0 \<le> n")
  case True
  then show ?thesis
    by (simp add: compressMillisBase62_def base62_loop_nonneg digits_of_nonempty)
next
  case False
  then show ?thesis by (simp add: compressMillisBase62_def base62_loop_neg)
qed

lemma decodeDeltas_entries:
  "\<forall>(p, c)\<in>set (zip (p # ts) ts). \<bar>c - p\<bar> \<le> 9007199254740991 \<Longrightarrow>
   decodeDeltas p (map2 deltaEntry (p # ts) ts) = Inr ts"
proof (induction ts arbitrary: p)
  case Nil
  show ?case
    by simp
next
  case (Cons a ts)
  have h: "\<bar>a - p\<bar> \<le> 9007199254740991"
    and r: "\<forall>(p, c)\<in>set (zip (a # ts) ts). \<bar>c - p\<bar> \<le> 9007199254740991"
    using Cons.prems by simp_all
  have "decodeDeltas p (map2 deltaEntry (p # a # ts) (a # ts))
          = decodeDeltas p (deltaEntry p a # map2 deltaEntry (a # ts) ts)"
    by simp
  also have "\<dots> = Inr (a # ts)"
    by (simp only: decodeDeltas_deltaEntry [OF h] Cons.IH [OF r]) simp
  finally show ?case .
qed

lemma map2_deltaEntry_shape:
  "\<forall>(p, c)\<in>set (zip (p # ts) ts). \<bar>c - p\<bar> \<le> 9007199254740991 \<Longrightarrow>
   \<forall>e\<in>set (map2 deltaEntry (p # ts) ts).
      \<exists>s run. e = s # run \<and> isSign s \<and> (\<forall>c\<in>set run. \<not> isSign c)"
proof (induction ts arbitrary: p)
  case Nil
  show ?case
    by simp
next
  case (Cons a ts)
  have h: "\<bar>a - p\<bar> \<le> 9007199254740991"
    and r: "\<forall>(p, c)\<in>set (zip (a # ts) ts). \<bar>c - p\<bar> \<le> 9007199254740991"
    using Cons.prems by simp_all
  have "map2 deltaEntry (p # a # ts) (a # ts) = deltaEntry p a # map2 deltaEntry (a # ts) ts"
    by simp
  then show ?case
    using deltaEntry_shape [OF h] Cons.IH [OF r] by (simp del: zip_Cons_Cons)
qed

lemma decodeTimestampSeries_roundtrip:
  assumes "0 \<le> t" "t \<le> 9007199254740991"
    and "\<forall>(p, c)\<in>set (zip (t # ts) ts). \<bar>c - p\<bar> \<le> 9007199254740991"
  shows "decodeTimestampSeries (compressTimestampSeries (t # ts)) = Inr (t # ts)"
proof -
  let ?es = "map2 deltaEntry (t # ts) ts"
  have f: "compressMillisBase62_f64 t = compressMillisBase62 t"
    using assms(2) by (intro compressMillisBase62_f64_safe) simp
  have nosign: "\<forall>c\<in>set (compressMillisBase62 t). \<not> isSign c"
    using base62_loop_no_sign [OF assms(1)] by (simp add: compressMillisBase62_def)
  have ents: "\<forall>e\<in>set ?es. \<exists>s run. e = s # run \<and> isSign s \<and> (\<forall>c\<in>set run. \<not> isSign c)"
    using assms(3) by (rule map2_deltaEntry_shape)
  have sp: "splitEntries (compressMillisBase62 t @ concat ?es) = compressMillisBase62 t # ?es"
    using splitEntries_run [OF nosign, of "concat ?es"] splitEntries_entries [OF ents]
    by simp
  have d0: "decodeDigits (compressMillisBase62 t) chars62 = Inr t"
    using decodeBase62_roundtrip [OF assms(1)] by (simp add: decodeBase62_def)
  show ?thesis
    unfolding compressTimestampSeries_entries f decodeTimestampSeries_def
    by (simp only: sp) (simp add: compressMillisBase62_nonempty d0 decodeDeltas_entries [OF assms(3)])
qed

text \<open>
  C1 (as the code behaves). Decoding an encoding gives back the timestamp exactly within
  the following bounds: for every timestamp from 0 to 2^53 - 1 under the Base36, Base62 and
  Base94 codecs and under the fixed-width binary codec on both its packed and its fallback
  path; for every timestamp, negative ones included, whose difference from the reference
  epoch has a magnitude of at most 2^53 - 1 under the reference-relative codec; for every
  timestamp from 0 to 8.64e15, the largest \<^verbatim>\<open>Date\<close>, under the split day/time codec in a
  zone with a fixed offset of at most one day from UTC; and for every non-empty series, of
  any length and with steps of either sign, whose first element lies between 0 and
  2^53 - 1 and whose steps have a magnitude of at most 2^53 - 1, under the sequence codec.
\<close>

theorem codecs_roundtrip:
  "(0 \<le> t \<and> t \<le> 9007199254740991 \<longrightarrow>
      decodeBase36 (compressMillisCustom_f64 t) = Inr t \<and>
      decodeBase62 (compressMillisBase62_f64 t) = Inr t \<and>
      decodeBase94 (compressMillisBase94_f64 t) = Inr t) \<and>
   (\<bar>t - ref\<bar> \<le> 9007199254740991 \<longrightarrow>
      decodeVariable (compressMillisVariable t (Some ref)) (Some ref) = Inr t) \<and>
   (\<bar>t - 1577836800000\<bar> \<le> 9007199254740991 \<longrightarrow>
      decodeVariable (compressMillisVariable t None) None = Inr t) \<and>
   (0 \<le> t \<and> t \<le> 8640000000000000 \<and> \<bar>off\<bar> \<le> 86400000 \<longrightarrow>
      decodeSplitDaysTime off (compressSplitDaysTime (fixedZone off) t) = Inr t) \<and>
   (0 \<le> t \<and> t \<le> 9007199254740991 \<longrightarrow>
      (\<exists>s. compressMillisBitPacked_f64 t = Inr s \<and> decodeBitPacked s = Inr t)) \<and>
   (0 \<le> t \<and> t \<le> 9007199254740991 \<and>
    (\<forall>(p, c)\<in>set (zip (t # ts) ts). \<bar>c - p\<bar> \<le> 9007199254740991) \<longrightarrow>
      decodeTimestampSeries (compressTimestampSeries (t # ts)) = Inr (t # ts))"
proof -
  have a: "decodeBase36 (compressMillisCustom_f64 t) = Inr t \<and>
      decodeBase62 (compressMillisBase62_f64 t) = Inr t \<and>
      decodeBase94 (compressMillisBase94_f64 t) = Inr t"
    if "0 \<le> t" "t \<le> 9007199254740991"
  proof -
    have "t < 2 ^ 53"
      using that(2) by simp
    then show ?thesis
      using that(1)
      by (simp add: compressMillisCustom_f64_safe compressMillisBase62_f64_safe
            compressMillisBase94_f64_safe decodeBase36_roundtrip decodeBase62_roundtrip
            decodeBase94_roundtrip)
  qed
  have b: "decodeVariable (compressMillisVariable t (Some ref)) (Some ref) = Inr t"
    if "\<bar>t - ref\<bar> \<le> 9007199254740991"
    using that by (intro decodeVariable_roundtrip) simp
  have c: "decodeVariable (compressMillisVariable t None) None = Inr t"
    if "\<bar>t - 1577836800000\<bar> \<le> 9007199254740991"
    using that by (intro decodeVariable_roundtrip) simp
  have d: "\<exists>s. compressMillisBitPacked_f64 t = Inr s \<and> decodeBitPacked s = Inr t"
    if "0 \<le> t" "t \<le> 9007199254740991"
  proof -
    have "compressMillisBitPacked_f64 t = compressMillisBitPacked t"
      using that by (intro compressMillisBitPacked_f64_safe) simp_all
    then show ?thesis
      using decodeBitPacked_roundtrip [OF that(1)] by simp
  qed
  from a b c d show ?thesis
    using decodeSplitDaysTime_roundtrip [of t off] decodeTimestampSeries_roundtrip [of t ts]
    by blast
qed

theorem codecs_roundtrip_witness:
  "decodeBase36 (compressMillisCustom_f64 1700000000000) = Inr 1700000000000 \<and>
   decodeBase62 (compressMillisBase62_f64 1700000000000) = Inr 1700000000000 \<and>
   decodeBase94 (compressMillisBase94_f64 1700000000000) = Inr 1700000000000 \<and>
   decodeVariable (compressMillisVariable 1700000000000 None) None = Inr 1700000000000 \<and>
   decodeVariable (compressMillisVariable 1700000000000 (Some 1800000000000)) (Some 1800000000000)
     = Inr 1700000000000 \<and>
   decodeSplitDaysTime 7200000 (compressSplitDaysTime (fixedZone 7200000) 1700000000000)
     = Inr 1700000000000 \<and>
   (\<exists>s. compressMillisBitPacked_f64 1700000000000 = Inr s
        \<and> decodeBitPacked s = Inr 1700000000000) \<and>
   (\<exists>s. compressMillisBitPacked_f64 5662310400005 = Inr s
        \<and> decodeBitPacked s = Inr 5662310400005) \<and>
   decodeTimestampSeries (compressTimestampSeries [1700000000000, 1700000005000, 1700000012000])
     = Inr [1700000000000, 1700000005000, 1700000012000] \<and>
   decodeTimestampSeries (compressTimestampSeries [1700000000000, 1699999999000])
     = Inr [1700000000000, 1699999999000] \<and>
   decodeTimestampSeries (compressTimestampSeries [1700000000000]) = Inr [1700000000000]"
  using codecs_roundtrip [of 1700000000000 1800000000000 7200000 "[1700000005000, 1700000012000]"]
    codecs_roundtrip [of 1700000000000 0 0 "[1699999999000]"]
    codecs_roundtrip [of 1700000000000 0 0 "[]"]
    codecs_roundtrip [of 5662310400005 0 0 "[]"]
  by simp

theorem codecs_roundtrip_counterexample:
  "decodeBase36 (compressMillisCustom_f64 (- 36)) = Inr 0 \<and>
   decodeBase62 (compressMillisBase62_f64 (- 62)) = Inr 0 \<and>
   decodeBase94 (compressMillisBase94_f64 (- 90)) = Inr 0 \<and>
   decodeBase36 (compressMillisCustom_f64 1000000000000000000) = Inr 999999999999999964 \<and>
   decodeBase62 (compressMillisBase62_f64 34902897112121404) = Inr 34902897112121466 \<and>
   decodeBase94 (compressMillisBase94_f64 1000000000000000000) = Inr 1000000000000000090 \<and>
   decodeVariable (compressMillisVariable 8639999999999999 (Some (- 8640000000000000)))
       (Some (- 8640000000000000)) = Inr 8640000000000000 \<and>
   compressSplitDaysTime (changingZone 1616893200000 0 3600000) 1616891400000 = ''4RQ:7ygg'' \<and>
   compressSplitDaysTime (changingZone 1616893200000 0 3600000) 1616974200000 = ''4RQ:7ygg'' \<and>
   compressSplitDaysTime (fixedZone 0) (- 1) = ''undefined:5QwAn'' \<and>
   decodeSplitDaysTime 0 (compressSplitDaysTime (fixedZone 0) (- 1))
     = Inr 573000631928882668799999 \<and>
   compressSplitDaysTime (fixedZone 0) 8640000000000001 = ''undefined:undefined'' \<and>
   decodeSplitDaysTime 0 (compressSplitDaysTime (fixedZone 0) 8640000000000001)
     = Inr 573000631928882660836141 \<and>
   compressMillisBitPacked_f64 (- 1) = Inl RangeError \<and>
   compressMillisBitPacked_f64 34902897112121404 = Inr ''F_2zR34KlahY'' \<and>
   decodeBitPacked ''F_2zR34KlahY'' = Inr 34902897112121466 \<and>
   decodeTimestampSeries (compressTimestampSeries [- 62]) = Inr [0] \<and>
   decodeTimestampSeries (compressTimestampSeries [8639999999999999, - 8640000000000000])
     = Inr [8639999999999999, - 8640000000000001]"
proof -
  have a: "decodeBase36 (compressMillisCustom_f64 (- 36)) = Inr 0"
    "decodeBase62 (compressMillisBase62_f64 (- 62)) = Inr 0"
    "decodeBase94 (compressMillisBase94_f64 (- 90)) = Inr 0"
    by code_simp+
  have b: "decodeBase36 (compressMillisCustom_f64 1000000000000000000) = Inr 999999999999999964"
    "decodeBase62 (compressMillisBase62_f64 34902897112121404) = Inr 34902897112121466"
    "decodeBase94 (compressMillisBase94_f64 1000000000000000000) = Inr 1000000000000000090"
    by code_simp+
  have c: "decodeVariable (compressMillisVariable 8639999999999999 (Some (- 8640000000000000)))
       (Some (- 8640000000000000)) = Inr 8640000000000000"
    by code_simp
  have d: "compressSplitDaysTime (changingZone 1616893200000 0 3600000) 1616891400000
             = ''4RQ:7ygg''"
    "compressSplitDaysTime (changingZone 1616893200000 0 3600000) 1616974200000 = ''4RQ:7ygg''"
    by code_simp+
  have e: "compressSplitDaysTime (fixedZone 0) (- 1) = ''undefined:5QwAn''"
    "decodeSplitDaysTime 0 (compressSplitDaysTime (fixedZone 0) (- 1))
       = Inr 573000631928882668799999"
    "compressSplitDaysTime (fixedZone 0) 8640000000000001 = ''undefined:undefined''"
    "decodeSplitDaysTime 0 (compressSplitDaysTime (fixedZone 0) 8640000000000001)
       = Inr 573000631928882660836141"
    by code_simp+
  have f: "compressMillisBitPacked_f64 (- 1) = Inl RangeError"
    "compressMillisBitPacked_f64 34902897112121404 = Inr ''F_2zR34KlahY''"
    "decodeBitPacked ''F_2zR34KlahY'' = Inr 34902897112121466"
    by code_simp+
  have g: "decodeTimestampSeries (compressTimestampSeries [- 62]) = Inr [0]"
    "decodeTimestampSeries (compressTimestampSeries [8639999999999999, - 8640000000000000])
       = Inr [8639999999999999, - 8640000000000001]"
    by code_simp+
  from a b c d e f g show ?thesis
    by simp
qed


end
